theory Spec2Isabelle
  imports Main
begin

section \<open>Strings\<close>

text \<open>
  A JavaScript string is a sequence of UTF-16 code units. A code unit is modelled by its
  number; the numbers from \<open>2 ^ 16\<close> on do not occur in a JavaScript string, and every
  definition below treats them as ordinary characters. \<open>js\<close> turns an ASCII literal
  into such a string.
\<close>

type_synonym jsstring = "nat list"

definition js :: "string \<Rightarrow> jsstring" where
  "js s = map of_char s"

definition startsWith :: "jsstring \<Rightarrow> jsstring \<Rightarrow> bool" where
  "startsWith s p = (take (length p) s = p)"

definition endsWith :: "jsstring \<Rightarrow> jsstring \<Rightarrow> bool" where
  "endsWith s p = (length p \<le> length s \<and> drop (length s - length p) s = p)"

section \<open>Regular expressions\<close>

text \<open>
  The source uses five regular-expression literals. They are built from literal text,
  four character classes, greedy and lazy repetition of a character class, an optional
  item, alternation and capture groups. \<open>mt\<close> is the backtracking matcher of
  ECMAScript for that fragment: it matches a list of pending items (the continuation)
  at the start of a string and returns the captures and the rest of the string of the
  first match in priority order (the left alternative first, more repetitions first when
  greedy, fewer first when lazy).
\<close>

datatype cclass =
    CAny      \<comment> \<open>\<^verbatim>\<open>[\s\S]\<close>\<close>
  | CDot      \<comment> \<open>\<^verbatim>\<open>.\<close>\<close>
  | CSpace    \<comment> \<open>\<^verbatim>\<open>\s\<close>\<close>
  | CQuote    \<comment> \<open>\<^verbatim>\<open>['"]\<close>\<close>

definition isLineTerminator :: "nat \<Rightarrow> bool" where
  "isLineTerminator c = (c = 10 \<or> c = 13 \<or> c = 8232 \<or> c = 8233)"

definition isWhiteSpace :: "nat \<Rightarrow> bool" where
  "isWhiteSpace c =
     (c = 9 \<or> c = 11 \<or> c = 12 \<or> c = 32 \<or> c = 160 \<or> c = 5760 \<or> (8192 \<le> c \<and> c \<le> 8202)
      \<or> c = 8239 \<or> c = 8287 \<or> c = 12288 \<or> c = 65279)"

fun cmatch :: "cclass \<Rightarrow> nat \<Rightarrow> bool" where
  "cmatch CAny c = True"
| "cmatch CDot c = (\<not> isLineTerminator c)"
| "cmatch CSpace c = (isWhiteSpace c \<or> isLineTerminator c)"
| "cmatch CQuote c = (c = 39 \<or> c = 34)"

datatype re =
    Lit jsstring          \<comment> \<open>literal text\<close>
  | Cls cclass            \<comment> \<open>one character of a class\<close>
  | Star cclass           \<comment> \<open>\<^verbatim>\<open>c*\<close>, greedy\<close>
  | LazyStar cclass       \<comment> \<open>\<^verbatim>\<open>c*?\<close>, lazy\<close>
  | Opt re                \<comment> \<open>\<^verbatim>\<open>r?\<close>, greedy\<close>
  | Seq re re
  | Alt re re
  | Eps                   \<comment> \<open>the empty alternative\<close>
  | Group nat re          \<comment> \<open>capture group number n\<close>

type_synonym captures = "(nat \<times> jsstring) list"

datatype item = R re | Close nat jsstring

fun rsize :: "re \<Rightarrow> nat" where
  "rsize (Lit w) = 1"
| "rsize (Cls c) = 1"
| "rsize (Star c) = 1"
| "rsize (LazyStar c) = 1"
| "rsize (Opt r) = Suc (rsize r)"
| "rsize (Seq a b) = Suc (rsize a + rsize b)"
| "rsize (Alt a b) = Suc (rsize a + rsize b)"
| "rsize Eps = 1"
| "rsize (Group n r) = Suc (Suc (rsize r))"

fun isize :: "item \<Rightarrow> nat" where
  "isize (R r) = rsize r"
| "isize (Close n s) = 1"

function mt :: "item list \<Rightarrow> captures \<Rightarrow> jsstring \<Rightarrow> (captures \<times> jsstring) option" where
  "mt [] caps s = Some (caps, s)"
| "mt (R (Lit w) # k) caps s =
     (if take (length w) s = w then mt k caps (drop (length w) s) else None)"
| "mt (R (Cls c) # k) caps s =
     (case s of [] \<Rightarrow> None | x # xs \<Rightarrow> if cmatch c x then mt k caps xs else None)"
| "mt (R (Star c) # k) caps s =
     (case s of
        [] \<Rightarrow> mt k caps s
      | x # xs \<Rightarrow>
          if cmatch c x
          then (case mt (R (Star c) # k) caps xs of Some m \<Rightarrow> Some m | None \<Rightarrow> mt k caps s)
          else mt k caps s)"
| "mt (R (LazyStar c) # k) caps s =
     (case mt k caps s of
        Some m \<Rightarrow> Some m
      | None \<Rightarrow>
          (case s of [] \<Rightarrow> None
           | x # xs \<Rightarrow> if cmatch c x then mt (R (LazyStar c) # k) caps xs else None))"
| "mt (R (Opt r) # k) caps s =
     (case mt (R r # k) caps s of Some m \<Rightarrow> Some m | None \<Rightarrow> mt k caps s)"
| "mt (R (Seq a b) # k) caps s = mt (R a # R b # k) caps s"
| "mt (R (Alt a b) # k) caps s =
     (case mt (R a # k) caps s of Some m \<Rightarrow> Some m | None \<Rightarrow> mt (R b # k) caps s)"
| "mt (R Eps # k) caps s = mt k caps s"
| "mt (R (Group n r) # k) caps s = mt (R r # Close n s # k) caps s"
| "mt (Close n s0 # k) caps s = mt k ((n, take (length s0 - length s) s0) # caps) s"
  by pat_completeness auto
termination
  by (relation "measures [\<lambda>(k, caps, s). length s, \<lambda>(k, caps, s). sum_list (map isize k)]")
     auto

definition match_at :: "re \<Rightarrow> jsstring \<Rightarrow> (captures \<times> jsstring) option" where
  "match_at r s = mt [R r] [] s"

text \<open>
  \<^verbatim>\<open>text.replace(r, '')\<close> for a global regular expression: every match is removed,
  scanning from left to right and continuing after each match; an empty match removes
  nothing and the scan moves on by one character.
\<close>

function replace_all :: "re \<Rightarrow> jsstring \<Rightarrow> jsstring" where
  "replace_all r s =
     (case match_at r s of
        Some (caps, rest) \<Rightarrow>
          if length rest < length s then replace_all r rest
          else (case s of [] \<Rightarrow> [] | c # cs \<Rightarrow> c # replace_all r cs)
      | None \<Rightarrow> (case s of [] \<Rightarrow> [] | c # cs \<Rightarrow> c # replace_all r cs))"
  by pat_completeness auto
termination
  by (relation "measure (\<lambda>(r, s). length s)") auto

text \<open>
  The loop \<^verbatim>\<open>while ((match = r.exec(content)) !== null)\<close> for a global regular
  expression: the matches from left to right, each search starting where the match before
  ended. After an empty match the next search starts at the same place and finds the same
  match again, so the loop does not end: that is the result \<open>None\<close>.
\<close>

function exec_all :: "re \<Rightarrow> jsstring \<Rightarrow> captures list option" where
  "exec_all r s =
     (case match_at r s of
        Some (caps, rest) \<Rightarrow>
          if length rest < length s then map_option ((#) caps) (exec_all r rest)
          else None
      | None \<Rightarrow> (case s of [] \<Rightarrow> Some [] | c # cs \<Rightarrow> exec_all r cs))"
  by pat_completeness auto
termination
  by (relation "measure (\<lambda>(r, s). length s)") auto

subsection \<open>The regular expressions of the source\<close>

definition plus :: "cclass \<Rightarrow> re" where
  "plus c = Seq (Cls c) (Star c)"

fun seq :: "re list \<Rightarrow> re" where
  "seq [] = Eps"
| "seq [r] = r"
| "seq (r # rs) = Seq r (seq rs)"

definition importRegex :: re where
  \<comment> \<open>\<^verbatim>\<open>/import\s+(?:[\s\S]*?from\s+|)(?:['"](.*?)['"])|import\s+[\s\S]*?=\s*require\(['"](.*?)['"]\)/g\<close>\<close>
  "importRegex =
     Alt (seq [Lit (js ''import''), plus CSpace,
               Alt (seq [LazyStar CAny, Lit (js ''from''), plus CSpace]) Eps,
               seq [Cls CQuote, Group 1 (LazyStar CDot), Cls CQuote]])
         (seq [Lit (js ''import''), plus CSpace, LazyStar CAny, Lit (js ''=''), Star CSpace,
               Lit (js ''require(''), Cls CQuote, Group 2 (LazyStar CDot), Cls CQuote,
               Lit (js '')'')])"

definition stripImportFrom :: re where
  \<comment> \<open>\<^verbatim>\<open>/import\s[\s\S]*?from\s*['"].*?['"];?/g\<close>\<close>
  "stripImportFrom =
     seq [Lit (js ''import''), Cls CSpace, LazyStar CAny, Lit (js ''from''), Star CSpace,
          Cls CQuote, LazyStar CDot, Cls CQuote, Opt (Lit (js '';''))]"

definition stripSideEffect :: re where
  \<comment> \<open>\<^verbatim>\<open>/import\s*['"].*?['"];?/g\<close>\<close>
  "stripSideEffect =
     seq [Lit (js ''import''), Star CSpace, Cls CQuote, LazyStar CDot, Cls CQuote,
          Opt (Lit (js '';''))]"

definition stripRequire :: re where
  \<comment> \<open>\<^verbatim>\<open>/import\s[\s\S]*?=\s*require\([\s\S]*?\);?/g\<close>\<close>
  "stripRequire =
     seq [Lit (js ''import''), Cls CSpace, LazyStar CAny, Lit (js ''=''), Star CSpace,
          Lit (js ''require(''), LazyStar CAny, Lit (js '')''), Opt (Lit (js '';''))]"

definition stripReexport :: re where
  \<comment> \<open>\<^verbatim>\<open>/export\s[\s\S]*?from\s*['"].*?['"];?/g\<close>\<close>
  "stripReexport =
     seq [Lit (js ''export''), Cls CSpace, LazyStar CAny, Lit (js ''from''), Star CSpace,
          Cls CQuote, LazyStar CDot, Cls CQuote, Opt (Lit (js '';''))]"

text \<open>The four cleanup replacements of \<^verbatim>\<open>build\<close>, in the order of the source.\<close>

definition strip :: "jsstring \<Rightarrow> jsstring" where
  "strip content =
     replace_all stripReexport
       (replace_all stripRequire
          (replace_all stripSideEffect
             (replace_all stripImportFrom content)))"

text \<open>
  \<^verbatim>\<open>match[1] || match[2]\<close>, and \<^verbatim>\<open>if (!importPath) continue\<close>: the first capture when it
  is a non-empty string, else the second when it is one, else nothing.
\<close>

definition importPath_of :: "captures \<Rightarrow> jsstring option" where
  "importPath_of caps =
     (case map_of caps 1 of
        Some (c # cs) \<Rightarrow> Some (c # cs)
      | _ \<Rightarrow> (case map_of caps 2 of Some (c # cs) \<Rightarrow> Some (c # cs) | _ \<Rightarrow> None))"

definition import_specifiers :: "jsstring \<Rightarrow> jsstring list option" where
  "import_specifiers content =
     map_option (\<lambda>ms. List.map_filter importPath_of ms) (exec_all importRegex content)"

section \<open>The environment\<close>

text \<open>
  The file system and the library functions the bundler calls. \<open>files\<close> holds the
  regular files with their text, \<open>dirs\<close> the directories with the names
  \<^verbatim>\<open>fs.readdirSync\<close> lists; both are finite. The functions of Node's \<^verbatim>\<open>path\<close> module
  and \<^verbatim>\<open>JSON.parse\<close> / \<^verbatim>\<open>JSON.stringify\<close> are parameters: every theorem below holds
  for any choice of them.
\<close>

datatype json =
    JNull
  | JBool bool
  | JNum int
  | JStr jsstring
  | JArr "json list"
  | JObj "(jsstring \<times> json) list"   \<comment> \<open>own properties, in the order of \<^verbatim>\<open>Object.keys\<close>\<close>

record env =
  files :: "(jsstring \<times> jsstring) list"
  dirs :: "(jsstring \<times> jsstring list) list"
  path_resolve :: "jsstring list \<Rightarrow> jsstring"
  path_dirname :: "jsstring \<Rightarrow> jsstring"
  path_join :: "jsstring \<Rightarrow> jsstring \<Rightarrow> jsstring"
  path_relative :: "jsstring \<Rightarrow> jsstring \<Rightarrow> jsstring"
  json_parse :: "jsstring \<Rightarrow> json option"
  json_stringify :: "(jsstring \<times> json) list \<Rightarrow> jsstring"

text \<open>The result of \<^verbatim>\<open>parseArgs\<close>.\<close>

record config =
  ENTRY_FILE :: jsstring
  OUTPUT_FILE :: jsstring
  OUTPUT_STRINGS_FILE :: jsstring
  PROJECT_ROOT :: jsstring

definition isFile :: "env \<Rightarrow> jsstring \<Rightarrow> bool" where
  \<comment> \<open>\<^verbatim>\<open>fs.existsSync(p) && fs.statSync(p).isFile()\<close>\<close>
  "isFile E p = (map_of (files E) p \<noteq> None)"

definition existsSync :: "env \<Rightarrow> jsstring \<Rightarrow> bool" where
  "existsSync E p = (isFile E p \<or> map_of (dirs E) p \<noteq> None)"

definition readFileSync :: "env \<Rightarrow> jsstring \<Rightarrow> jsstring option" where
  \<comment> \<open>\<open>None\<close>: the call throws (no such file, or a directory)\<close>
  "readFileSync E p = map_of (files E) p"

definition readdirSync :: "env \<Rightarrow> jsstring \<Rightarrow> jsstring list option" where
  \<comment> \<open>\<open>None\<close>: the call throws (no such directory)\<close>
  "readdirSync E d = map_of (dirs E) d"

definition writeFileSync :: "env \<Rightarrow> jsstring \<Rightarrow> jsstring \<Rightarrow> env" where
  "writeFileSync E p text = E\<lparr>files := (p, text) # files E\<rparr>"

section \<open>Effects and errors\<close>

datatype event =
    Stat jsstring             \<comment> \<open>the file system was asked whether the path is a file\<close>
  | ReadFile jsstring         \<comment> \<open>\<^verbatim>\<open>fs.readFileSync\<close> of a source file\<close>
  | Warn jsstring jsstring    \<comment> \<open>\<^verbatim>\<open>console.warn\<close>: could not resolve the import, from the directory\<close>

datatype error =
    EntryNotFound jsstring          \<comment> \<open>\<^verbatim>\<open>process.exit(1)\<close> in \<^verbatim>\<open>build\<close>\<close>
  | ReadFailed jsstring             \<comment> \<open>\<^verbatim>\<open>fs.readFileSync\<close> threw in \<^verbatim>\<open>walk\<close> or \<^verbatim>\<open>build\<close>\<close>
  | ScanDiverges jsstring           \<comment> \<open>the \<^verbatim>\<open>exec\<close> loop of \<^verbatim>\<open>walk\<close> does not end\<close>
  | ReaddirFailed jsstring          \<comment> \<open>\<^verbatim>\<open>fs.readdirSync\<close> threw\<close>
  | JsonParseFailed jsstring        \<comment> \<open>the \<^verbatim>\<open>catch\<close> of \<^verbatim>\<open>processStrings\<close>, rethrown\<close>
  | DuplicateKey jsstring jsstring  \<comment> \<open>key and relative path; \<^verbatim>\<open>process.exit(1)\<close>\<close>

section \<open>resolveImport\<close>

definition EXTERNAL_MODULES :: "jsstring list" where
  "EXTERNAL_MODULES = [js ''mod'']"

definition extensions :: "jsstring list" where
  "extensions = [js ''.ts'', js ''/index.ts'', js ''.d.ts'']"

text \<open>The \<^verbatim>\<open>for (const ext of extensions)\<close> loop: the path found, and the paths probed.\<close>

fun try_extensions :: "env \<Rightarrow> jsstring \<Rightarrow> jsstring list \<Rightarrow> jsstring option \<times> event list" where
  "try_extensions E targetPath [] = (None, [])"
| "try_extensions E targetPath (ext # exts) =
     (if isFile E (targetPath @ ext) then (Some (targetPath @ ext), [Stat (targetPath @ ext)])
      else (case try_extensions E targetPath exts of
              (found, evs) \<Rightarrow> (found, Stat (targetPath @ ext) # evs)))"

definition targetPath_of :: "env \<Rightarrow> config \<Rightarrow> jsstring \<Rightarrow> jsstring \<Rightarrow> jsstring" where
  "targetPath_of E C importPath currentFileDir =
     (if startsWith importPath (js ''.'') then path_resolve E [currentFileDir, importPath]
      else path_resolve E [PROJECT_ROOT C, js ''node_modules'', importPath])"

text \<open>
  \<^verbatim>\<open>resolveImport\<close> returns the absolute path or \<^verbatim>\<open>null\<close> (\<open>None\<close>), together with
  what it did on the way: the paths it probed and the warning it printed.
\<close>

definition resolveImport ::
    "env \<Rightarrow> config \<Rightarrow> jsstring \<Rightarrow> jsstring \<Rightarrow> jsstring option \<times> event list" where
  "resolveImport E C importPath currentFileDir =
     (if importPath \<in> set EXTERNAL_MODULES then (None, [])
      else
        let targetPath = targetPath_of E C importPath currentFileDir in
        if isFile E targetPath then (Some targetPath, [Stat targetPath])
        else (case try_extensions E targetPath extensions of
                (Some appended, evs) \<Rightarrow> (Some appended, Stat targetPath # evs)
              | (None, evs) \<Rightarrow>
                  (None, Stat targetPath # evs @ [Warn importPath currentFileDir])))"

section \<open>walk\<close>

text \<open>The module-level variables \<^verbatim>\<open>visited\<close> and \<^verbatim>\<open>buildOrder\<close>, and the trace of effects.\<close>

record wstate =
  visited :: "jsstring set"
  buildOrder :: "jsstring list"
  trace :: "event list"

definition init_wstate :: wstate where
  "init_wstate = \<lparr>visited = {}, buildOrder = [], trace = []\<rparr>"

text \<open>
  \<open>walk\<close> is the function of the source; \<open>walk_imports\<close> is the body of its
  \<^verbatim>\<open>while\<close> loop over the import specifiers found in the file, in order.
\<close>

function walk :: "env \<Rightarrow> config \<Rightarrow> jsstring \<Rightarrow> wstate \<Rightarrow> error + wstate"
  and walk_imports :: "env \<Rightarrow> config \<Rightarrow> jsstring \<Rightarrow> jsstring list \<Rightarrow> wstate \<Rightarrow> error + wstate"
where
  "walk E C filePath st =
     (if filePath \<in> visited st then Inr st
      else
        (case readFileSync E filePath of
           None \<Rightarrow> Inl (ReadFailed filePath)
         | Some content \<Rightarrow>
             (case import_specifiers content of
                None \<Rightarrow> Inl (ScanDiverges filePath)
              | Some specs \<Rightarrow>
                  (case walk_imports E C filePath specs
                          (st\<lparr>visited := insert filePath (visited st),
                              trace := trace st @ [ReadFile filePath]\<rparr>) of
                     Inl e \<Rightarrow> Inl e
                   | Inr st' \<Rightarrow> Inr (st'\<lparr>buildOrder := buildOrder st' @ [filePath]\<rparr>)))))"
| "walk_imports E C filePath [] st = Inr st"
| "walk_imports E C filePath (importPath # rest) st =
     (case resolveImport E C importPath (path_dirname E filePath) of
        (None, evs) \<Rightarrow> walk_imports E C filePath rest (st\<lparr>trace := trace st @ evs\<rparr>)
      | (Some absolutePath, evs) \<Rightarrow>
          if \<not> endsWith absolutePath (js ''.d.ts'')
          then (case walk E C absolutePath (st\<lparr>trace := trace st @ evs\<rparr>) of
                  Inl e \<Rightarrow> Inl e
                | Inr st' \<Rightarrow> walk_imports E C filePath rest st')
          else walk_imports E C filePath rest (st\<lparr>trace := trace st @ evs\<rparr>))"
  by pat_completeness auto


text \<open>
  Termination. The recursion is nested: the state one call of \<open>walk\<close> returns is the
  state of the next. Every call that reads a file marks one more of the finitely many
  files as visited, and no call unmarks one.
\<close>

lemma walk_visited_mono_dom:
  "walk_walk_imports_dom (Inl (E, C, filePath, st)) \<Longrightarrow>
     walk E C filePath st = Inr st' \<Longrightarrow> visited st \<subseteq> visited st'"
  "walk_walk_imports_dom (Inr (E, C, filePath, specs, st)) \<Longrightarrow>
     walk_imports E C filePath specs st = Inr st' \<Longrightarrow> visited st \<subseteq> visited st'"
proof (induction E C filePath st and E C filePath specs st arbitrary: st' and st'
        rule: walk_walk_imports.pinduct)
  case (1 E C filePath st)
  then show ?case
    by (fastforce simp: walk.psimps split: if_splits option.splits sum.splits)
next
  case (2 E C filePath st)
  then show ?case by (simp add: walk_imports.psimps)
next
  case (3 E C filePath importPath rest st)
  then show ?case
    by (fastforce simp: walk_imports.psimps split: if_splits option.splits sum.splits prod.splits)
qed

lemma card_unvisited_insert:
  assumes "map_of fs p = Some c" and "p \<notin> V"
  shows "card (fst ` set fs - insert p V) < card (fst ` set fs - V)"
proof -
  from assms have "p \<in> fst ` set fs - V"
    by (auto dest: map_of_SomeD intro: rev_image_eqI)
  moreover have "fst ` set fs - insert p V = (fst ` set fs - V) - {p}" by auto
  ultimately show ?thesis
    by (metis List.finite_set card_Diff1_less finite_Diff finite_imageI)
qed

lemma card_unvisited_mono:
  "V \<subseteq> V' \<Longrightarrow> card (fst ` set fs - V') \<le> card (fst ` set fs - V)"
  by (intro card_mono) auto

termination walk
proof (relation
    "measures [\<lambda>x. case x of Inl (E, C, p, st) \<Rightarrow> card (fst ` set (files E) - visited st)
                          | Inr (E, C, p, specs, st) \<Rightarrow> card (fst ` set (files E) - visited st),
               \<lambda>x. case x of Inl _ \<Rightarrow> 0 | Inr (E, C, p, specs, st) \<Rightarrow> Suc (length specs)]",
    goal_cases)
  case 1
  then show ?case by simp
next
  case (2 E C filePath st content specs)
  then show ?case
    by (simp add: readFileSync_def card_unvisited_insert)
next
  case (3 E C filePath importPath rest st x y)
  then show ?case by simp
next
  case (4 E C filePath importPath rest st x y absolutePath)
  then show ?case by simp
next
  case (5 E C filePath importPath rest st x y absolutePath st')
  then have "visited st \<subseteq> visited st'"
    using walk_visited_mono_dom(1) by fastforce
  then have "card (fst ` set (files E) - visited st') \<le> card (fst ` set (files E) - visited st)"
    by (rule card_unvisited_mono)
  then show ?case by auto
next
  case 6
  then show ?case by simp
qed

declare walk.simps [simp del] walk_imports.simps [simp del]
declare replace_all.simps [simp del] exec_all.simps [simp del] mt.simps [simp del]


section \<open>processStrings\<close>

text \<open>
  \<^verbatim>\<open>mergedStrings\<close> is an ordinary JavaScript object created by \<^verbatim>\<open>{}\<close>: its own
  properties, and its prototype. The prototype matters for one key. \<^verbatim>\<open>Object.prototype\<close>
  has an accessor property \<^verbatim>\<open>__proto__\<close>; an assignment \<^verbatim>\<open>obj['__proto__'] = v\<close> to an
  object that inherits the accessor calls its setter, which replaces the prototype of
  \<^verbatim>\<open>obj\<close> when \<^verbatim>\<open>v\<close> is an object or \<^verbatim>\<open>null\<close> and does nothing otherwise; no own
  property is created. (\<^verbatim>\<open>JSON.parse\<close> itself defines \<^verbatim>\<open>__proto__\<close> as an own property of
  the objects it builds.) Every other inherited property is a writable data property,
  and an assignment creates an own property as usual.
\<close>

datatype proto = ObjectPrototype | NullPrototype | ValuePrototype json

record jsobject =
  own :: "(jsstring \<times> json) list"   \<comment> \<open>own properties, in the order \<^verbatim>\<open>Object.keys\<close> lists them\<close>
  proto :: proto

definition empty_object :: jsobject where
  "empty_object = \<lparr>own = [], proto = ObjectPrototype\<rparr>"

definition hasOwnProperty :: "jsobject \<Rightarrow> jsstring \<Rightarrow> bool" where
  "hasOwnProperty obj key = (map_of (own obj) key \<noteq> None)"

text \<open>Whether a lookup of \<^verbatim>\<open>__proto__\<close> along the prototype chain ends at the accessor.\<close>

fun inherits_proto_accessor :: "proto \<Rightarrow> bool" where
  "inherits_proto_accessor ObjectPrototype = True"
| "inherits_proto_accessor NullPrototype = False"
| "inherits_proto_accessor (ValuePrototype (JObj kvs)) = (map_of kvs (js ''__proto__'') = None)"
| "inherits_proto_accessor (ValuePrototype v) = True"

text \<open>
  The own keys of an object are listed with the array indices first, in ascending numeric
  order, and then the other keys in the order in which they were created. An array index
  is the decimal text, without leading zeros, of a number below \<open>2 ^ 32 - 1\<close>.
\<close>

fun decimal :: "nat \<Rightarrow> jsstring" where
  "decimal n = (if n < 10 then [48 + n] else decimal (n div 10) @ [48 + n mod 10])"

declare decimal.simps [simp del]

definition digits_value :: "jsstring \<Rightarrow> nat" where
  "digits_value k = foldl (\<lambda>a c. 10 * a + (c - 48)) 0 k"

definition array_index :: "jsstring \<Rightarrow> nat option" where
  "array_index k =
     (if k \<noteq> [] \<and> list_all (\<lambda>c. 48 \<le> c \<and> c \<le> 57) k \<and> length k \<le> 10 \<and>
         decimal (digits_value k) = k \<and> digits_value k < 4294967295
      then Some (digits_value k) else None)"

fun insert_index ::
    "nat \<Rightarrow> jsstring \<times> json \<Rightarrow> (jsstring \<times> json) list \<Rightarrow> (jsstring \<times> json) list" where
  "insert_index n kv [] = [kv]"
| "insert_index n kv (e # es) =
     (case array_index (fst e) of
        Some m \<Rightarrow> if m < n then e # insert_index n kv es else kv # e # es
      | None \<Rightarrow> kv # e # es)"

definition add_own :: "jsstring \<times> json \<Rightarrow> (jsstring \<times> json) list \<Rightarrow> (jsstring \<times> json) list" where
  "add_own kv props =
     (case array_index (fst kv) of
        Some n \<Rightarrow> insert_index n kv props
      | None \<Rightarrow> props @ [kv])"

text \<open>\<^verbatim>\<open>obj[key] = v\<close>\<close>

definition assign :: "jsobject \<Rightarrow> jsstring \<Rightarrow> json \<Rightarrow> jsobject" where
  "assign obj key v =
     (if hasOwnProperty obj key
      then obj\<lparr>own := map (\<lambda>(k, x). if k = key then (k, v) else (k, x)) (own obj)\<rparr>
      else if key = js ''__proto__'' \<and> inherits_proto_accessor (proto obj)
      then (case v of
              JNull \<Rightarrow> obj\<lparr>proto := NullPrototype\<rparr>
            | JArr xs \<Rightarrow> obj\<lparr>proto := ValuePrototype v\<rparr>
            | JObj kvs \<Rightarrow> obj\<lparr>proto := ValuePrototype v\<rparr>
            | _ \<Rightarrow> obj)
      else obj\<lparr>own := add_own (key, v) (own obj)\<rparr>)"

text \<open>
  \<^verbatim>\<open>Object.keys(fileContent)\<close>, each key with \<^verbatim>\<open>fileContent[key]\<close>. For \<^verbatim>\<open>null\<close> the call
  throws (\<open>None\<close>); an array or a string has its indices as keys, a number or a boolean
  has none.
\<close>

fun own_entries :: "json \<Rightarrow> (jsstring \<times> json) list option" where
  "own_entries JNull = None"
| "own_entries (JBool b) = Some []"
| "own_entries (JNum n) = Some []"
| "own_entries (JStr s) = Some (zip (map decimal [0..<length s]) (map (\<lambda>c. JStr [c]) s))"
| "own_entries (JArr xs) = Some (zip (map decimal [0..<length xs]) xs)"
| "own_entries (JObj kvs) = Some kvs"

text \<open>The loop \<^verbatim>\<open>for (const key of Object.keys(fileContent))\<close>.\<close>

fun merge_keys ::
    "env \<Rightarrow> config \<Rightarrow> jsstring \<Rightarrow> (jsstring \<times> json) list \<Rightarrow> jsobject \<Rightarrow> error + jsobject" where
  "merge_keys E C jsonPath [] mergedStrings = Inr mergedStrings"
| "merge_keys E C jsonPath ((key, v) # kvs) mergedStrings =
     (if hasOwnProperty mergedStrings key
      then Inl (DuplicateKey key (path_relative E (PROJECT_ROOT C) jsonPath))
      else merge_keys E C jsonPath kvs (assign mergedStrings key v))"

record sstate =
  mergedStrings :: jsobject
  processedJsonFiles :: "jsstring set"

text \<open>The loop \<^verbatim>\<open>for (const jsonFilename of files)\<close>, with its \<^verbatim>\<open>try\<close> / \<^verbatim>\<open>catch\<close>.\<close>

fun process_files ::
    "env \<Rightarrow> config \<Rightarrow> jsstring \<Rightarrow> jsstring list \<Rightarrow> sstate \<Rightarrow> error + sstate" where
  "process_files E C dir [] s = Inr s"
| "process_files E C dir (jsonFilename # rest) s =
     (if path_join E dir jsonFilename \<in> processedJsonFiles s then process_files E C dir rest s
      else
        (case readFileSync E (path_join E dir jsonFilename) of
           None \<Rightarrow> Inl (JsonParseFailed (path_join E dir jsonFilename))
         | Some text \<Rightarrow>
             (case json_parse E text of
                None \<Rightarrow> Inl (JsonParseFailed (path_join E dir jsonFilename))
              | Some fileContent \<Rightarrow>
                  (case own_entries fileContent of
                     None \<Rightarrow> Inl (JsonParseFailed (path_join E dir jsonFilename))
                   | Some kvs \<Rightarrow>
                       (case merge_keys E C (path_join E dir jsonFilename) kvs (mergedStrings s) of
                          Inl e \<Rightarrow> Inl e
                        | Inr m \<Rightarrow>
                            process_files E C dir rest
                              \<lparr>mergedStrings = m,
                               processedJsonFiles =
                                 insert (path_join E dir jsonFilename) (processedJsonFiles s)\<rparr>)))))"

text \<open>The loop \<^verbatim>\<open>for (const dir of directories)\<close>.\<close>

fun process_dirs :: "env \<Rightarrow> config \<Rightarrow> jsstring list \<Rightarrow> sstate \<Rightarrow> error + sstate" where
  "process_dirs E C [] s = Inr s"
| "process_dirs E C (dir # ds) s =
     (case readdirSync E dir of
        None \<Rightarrow> Inl (ReaddirFailed dir)
      | Some names \<Rightarrow>
          (case process_files E C dir (filter (\<lambda>f. endsWith f (js ''strings.json'')) names) s of
             Inl e \<Rightarrow> Inl e
           | Inr s' \<Rightarrow> process_dirs E C ds s'))"

text \<open>\<^verbatim>\<open>new Set(xs)\<close>, iterated: the elements in the order of their first occurrence.\<close>

fun set_order :: "'a list \<Rightarrow> 'a list \<Rightarrow> 'a list" where
  "set_order acc [] = acc"
| "set_order acc (x # xs) = (if x \<in> set acc then set_order acc xs else set_order (acc @ [x]) xs)"

definition processStrings :: "env \<Rightarrow> config \<Rightarrow> jsstring list \<Rightarrow> error + jsobject" where
  "processStrings E C order =
     (case process_dirs E C (set_order [] (map (path_dirname E) order))
             \<lparr>mergedStrings = empty_object, processedJsonFiles = {}\<rparr> of
        Inl e \<Rightarrow> Inl e
      | Inr s \<Rightarrow> Inr (mergedStrings s))"

section \<open>build\<close>

text \<open>\<^verbatim>\<open>lines.join('\n')\<close>\<close>

fun join_lines :: "jsstring list \<Rightarrow> jsstring" where
  "join_lines [] = []"
| "join_lines [l] = l"
| "join_lines (l # ls) = l @ [10] @ join_lines ls"

text \<open>The loop \<^verbatim>\<open>for (const filePath of buildOrder)\<close>: the lines pushed to \<^verbatim>\<open>finalOutput\<close>.\<close>

fun concat_sources :: "env \<Rightarrow> config \<Rightarrow> jsstring list \<Rightarrow> error + jsstring list" where
  "concat_sources E C [] = Inr []"
| "concat_sources E C (filePath # rest) =
     (case readFileSync E filePath of
        None \<Rightarrow> Inl (ReadFailed filePath)
      | Some content \<Rightarrow>
          (case concat_sources E C rest of
             Inl e \<Rightarrow> Inl e
           | Inr ls \<Rightarrow>
               Inr ([js ''// --- SOURCE: '' @ path_relative E (PROJECT_ROOT C) filePath @ js '' ---'',
                     strip content, []] @ ls)))"

definition banner :: "jsstring list" where
  "banner = [js ''// --- BUNDLED TYPESCRIPT OUTPUT ---'', js ''// @ts-nocheck'', []]"

text \<open>
  What a run of \<^verbatim>\<open>build\<close> leaves behind: the error that ended it (\<open>None\<close> when it
  ran to the end), the calls of \<^verbatim>\<open>fs.writeFileSync\<close> in order (path and text), and the
  walker's state. Creating the output directory and writing a file are taken to succeed.
\<close>

record build_result =
  failure :: "error option"
  written :: "(jsstring \<times> jsstring) list"
  walked :: wstate

definition build :: "env \<Rightarrow> config \<Rightarrow> build_result" where
  "build E C =
     (if \<not> existsSync E (ENTRY_FILE C)
      then \<lparr>failure = Some (EntryNotFound (ENTRY_FILE C)), written = [], walked = init_wstate\<rparr>
      else
        (case walk E C (ENTRY_FILE C) init_wstate of
           Inl e \<Rightarrow> \<lparr>failure = Some e, written = [], walked = init_wstate\<rparr>
         | Inr st \<Rightarrow>
             (case processStrings E C (buildOrder st) of
                Inl e \<Rightarrow> \<lparr>failure = Some e, written = [], walked = st\<rparr>
              | Inr finalStrings \<Rightarrow>
                  (case concat_sources
                          (writeFileSync E (OUTPUT_STRINGS_FILE C)
                             (json_stringify E (own finalStrings)))
                          C (buildOrder st) of
                     Inl e \<Rightarrow>
                       \<lparr>failure = Some e,
                        written = [(OUTPUT_STRINGS_FILE C, json_stringify E (own finalStrings))],
                        walked = st\<rparr>
                   | Inr ls \<Rightarrow>
                       \<lparr>failure = None,
                        written = [(OUTPUT_STRINGS_FILE C, json_stringify E (own finalStrings)),
                                   (OUTPUT_FILE C, join_lines (banner @ ls))],
                        walked = st\<rparr>))))"


section \<open>The import graph\<close>

text \<open>
  The vocabulary of the properties below. The resolved imports of a file are the paths
  \<open>resolveImport\<close> returns for the specifiers \<open>walk\<close> finds in it; its
  dependencies are those that are not declaration files, the ones \<open>walk\<close> recurses
  into. \<open>index_of\<close> is the position of the first occurrence of an element.
\<close>

definition resolved_imports :: "env \<Rightarrow> config \<Rightarrow> jsstring \<Rightarrow> jsstring list" where
  "resolved_imports E C filePath =
     (case readFileSync E filePath of
        None \<Rightarrow> []
      | Some content \<Rightarrow>
          (case import_specifiers content of
             None \<Rightarrow> []
           | Some specs \<Rightarrow>
               List.map_filter (\<lambda>spec. fst (resolveImport E C spec (path_dirname E filePath))) specs))"

definition dependencies :: "env \<Rightarrow> config \<Rightarrow> jsstring \<Rightarrow> jsstring list" where
  "dependencies E C filePath =
     filter (\<lambda>a. \<not> endsWith a (js ''.d.ts'')) (resolved_imports E C filePath)"

definition edge :: "env \<Rightarrow> config \<Rightarrow> (jsstring \<times> jsstring) set" where
  "edge E C = {(importer, dependency). dependency \<in> set (dependencies E C importer)}"

definition index_of :: "'a list \<Rightarrow> 'a \<Rightarrow> nat" where
  "index_of xs a = length (takeWhile (\<lambda>x. x \<noteq> a) xs)"

definition before :: "'a list \<Rightarrow> 'a \<Rightarrow> 'a \<Rightarrow> bool" where
  "before xs a b = (a \<in> set xs \<and> b \<in> set xs \<and> index_of xs a < index_of xs b)"

definition grey :: "wstate \<Rightarrow> jsstring set" where
  "grey st = visited st - set (buildOrder st)"

definition walk_inv :: "env \<Rightarrow> config \<Rightarrow> wstate \<Rightarrow> bool" where
  "walk_inv E C st =
     (set (buildOrder st) \<subseteq> visited st \<and> distinct (buildOrder st) \<and>
      (\<forall>f \<in> set (buildOrder st). \<forall>d \<in> set (dependencies E C f).
         d \<in> visited st \<and> (before (buildOrder st) d f \<or> (d, f) \<in> (edge E C)\<^sup>*)))"


text \<open>Whether a text occurs in another, and whether a regular expression matches anywhere.\<close>

fun occurs_in :: "jsstring \<Rightarrow> jsstring \<Rightarrow> bool" where
  "occurs_in w [] = (w = [])"
| "occurs_in w (c # cs) = (take (length w) (c # cs) = w \<or> occurs_in w cs)"

fun matches_somewhere :: "re \<Rightarrow> jsstring \<Rightarrow> bool" where
  "matches_somewhere r [] = (match_at r [] \<noteq> None)"
| "matches_somewhere r (c # cs) = (match_at r (c # cs) \<noteq> None \<or> matches_somewhere r cs)"

text \<open>Import-like text: a match of one of the four cleanup expressions of \<^verbatim>\<open>build\<close>.\<close>

definition import_like :: "jsstring \<Rightarrow> bool" where
  "import_like t =
     (matches_somewhere stripImportFrom t \<or> matches_somewhere stripSideEffect t \<or>
      matches_somewhere stripRequire t \<or> matches_somewhere stripReexport t)"

text \<open>
  The events the resolver leaves for every import of a file, as a part of a trace.
\<close>

definition resolved_in :: "env \<Rightarrow> config \<Rightarrow> event list \<Rightarrow> jsstring \<Rightarrow> bool" where
  "resolved_in E C evs f =
     (\<forall>content specs. readFileSync E f = Some content \<longrightarrow> import_specifiers content = Some specs \<longrightarrow>
        (\<forall>spec \<in> set specs.
           \<exists>pre post. evs = pre @ snd (resolveImport E C spec (path_dirname E f)) @ post))"

text \<open>
  A module of the usual shape: statements \<^verbatim>\<open>import <bindings> from '<source>';\<close>, each
  after some leading text, and a body after the last. \<open>kept_text\<close> is the text around
  the statements. A statement is plain when its quote is one of the two quotes, its
  bindings do not hold \<^verbatim>\<open>from\<close>, and its source holds no quote and no line terminator.
\<close>

definition import_statement :: "nat \<Rightarrow> jsstring \<Rightarrow> jsstring \<Rightarrow> jsstring" where
  "import_statement q bindings source =
     js ''import '' @ bindings @ js ''from '' @ [q] @ source @ [q, 59]"

fun module_text :: "(jsstring \<times> nat \<times> jsstring \<times> jsstring) list \<Rightarrow> jsstring \<Rightarrow> jsstring" where
  "module_text [] body = body"
| "module_text ((lead, q, bindings, source) # items) body =
     lead @ import_statement q bindings source @ module_text items body"

fun kept_text :: "(jsstring \<times> nat \<times> jsstring \<times> jsstring) list \<Rightarrow> jsstring \<Rightarrow> jsstring" where
  "kept_text [] body = body"
| "kept_text ((lead, q, bindings, source) # items) body = lead @ kept_text items body"

definition plain_import :: "jsstring \<times> nat \<times> jsstring \<times> jsstring \<Rightarrow> bool" where
  "plain_import item =
     (case item of (lead, q, bindings, source) \<Rightarrow>
        cmatch CQuote q \<and> \<not> occurs_in (js ''from'') bindings \<and>
        list_all (\<lambda>c. c \<noteq> 39 \<and> c \<noteq> 34 \<and> \<not> isLineTerminator c) source)"

section \<open>An example project\<close>

text \<open>
  Node's \<^verbatim>\<open>path\<close> functions for POSIX paths and \<^verbatim>\<open>JSON.stringify(value, null, 4)\<close>, for the
  concrete examples: \<open>posix_resolve\<close> takes the working directory as its first argument.
  The numbers of the examples are integers below \<open>10 ^ 21\<close> in absolute value, which are
  printed as their digits. \<open>E0\<close> is a project whose entry \<^verbatim>\<open>a.ts\<close> imports the ignored
  module \<^verbatim>\<open>mod\<close>, the files \<^verbatim>\<open>b.ts\<close> and \<^verbatim>\<open>c.ts\<close> (which both import \<^verbatim>\<open>d.ts\<close>; \<^verbatim>\<open>b.ts\<close>
  also imports \<^verbatim>\<open>a.ts\<close> back), a declaration file and a file that does not exist.
\<close>

fun split_on :: "nat \<Rightarrow> jsstring \<Rightarrow> jsstring list" where
  "split_on c [] = [[]]"
| "split_on c (x # xs) =
     (if x = c then [] # split_on c xs
      else (case split_on c xs of [] \<Rightarrow> [[x]] | w # ws \<Rightarrow> (x # w) # ws))"

fun join_with :: "jsstring \<Rightarrow> jsstring list \<Rightarrow> jsstring" where
  "join_with sep [] = []"
| "join_with sep [x] = x"
| "join_with sep (x # xs) = x @ sep @ join_with sep xs"

text \<open>
  The segments of a path with \<^verbatim>\<open>.\<close> and empty segments dropped and \<^verbatim>\<open>..\<close> applied; above
  the start of a relative path \<^verbatim>\<open>..\<close> is kept, above the root it is dropped.
\<close>

fun normalize :: "bool \<Rightarrow> jsstring list \<Rightarrow> jsstring list \<Rightarrow> jsstring list" where
  "normalize allowAboveRoot stack [] = stack"
| "normalize allowAboveRoot stack (seg # segs) =
     (if seg = [] \<or> seg = js ''.'' then normalize allowAboveRoot stack segs
      else if seg = js ''..''
      then (if stack \<noteq> [] \<and> last stack \<noteq> js ''..''
            then normalize allowAboveRoot (butlast stack) segs
            else if allowAboveRoot then normalize allowAboveRoot (stack @ [seg]) segs
            else normalize allowAboveRoot stack segs)
      else normalize allowAboveRoot (stack @ [seg]) segs)"

text \<open>The arguments of \<^verbatim>\<open>path.resolve\<close> from the last absolute one on.\<close>

fun from_last_absolute :: "jsstring list \<Rightarrow> jsstring list \<Rightarrow> jsstring list" where
  "from_last_absolute acc [] = acc"
| "from_last_absolute acc (p # ps) =
     (if startsWith p (js ''/'') then from_last_absolute [p] ps
      else from_last_absolute (acc @ [p]) ps)"

definition posix_segments :: "jsstring \<Rightarrow> jsstring list \<Rightarrow> jsstring list" where
  "posix_segments cwd parts =
     normalize False [] (concat (map (split_on 47) (from_last_absolute [] (cwd # parts))))"

definition posix_resolve :: "jsstring \<Rightarrow> jsstring list \<Rightarrow> jsstring" where
  "posix_resolve cwd parts = 47 # join_with [47] (posix_segments cwd parts)"

definition posix_dirname :: "jsstring \<Rightarrow> jsstring" where
  "posix_dirname p =
     (if p = [] then js ''.''
      else
        let r = dropWhile (\<lambda>c. c \<noteq> 47) (dropWhile (\<lambda>c. c = 47) (rev (tl p))) in
        if r = [] then (if hd p = 47 then js ''/'' else js ''.'')
        else if hd p = 47 \<and> length r = 1 then js ''//''
        else take (length r) p)"

definition posix_normalize :: "jsstring \<Rightarrow> jsstring" where
  "posix_normalize p =
     (if p = [] then js ''.''
      else
        let segs = normalize (hd p \<noteq> 47) [] (split_on 47 p) in
        if segs = []
        then (if hd p = 47 then js ''/'' else if last p = 47 then js ''./'' else js ''.'')
        else (if hd p = 47 then [47] else []) @ join_with [47] segs @
             (if last p = 47 then [47] else []))"

definition posix_join :: "jsstring \<Rightarrow> jsstring \<Rightarrow> jsstring" where
  "posix_join d n =
     (if d = [] \<and> n = [] then js ''.''
      else if d = [] then posix_normalize n
      else if n = [] then posix_normalize d
      else posix_normalize (d @ [47] @ n))"

fun drop_common :: "'a list \<Rightarrow> 'a list \<Rightarrow> 'a list \<times> 'a list" where
  "drop_common (x # xs) (y # ys) = (if x = y then drop_common xs ys else (x # xs, y # ys))"
| "drop_common xs ys = (xs, ys)"

definition posix_relative :: "jsstring \<Rightarrow> jsstring \<Rightarrow> jsstring \<Rightarrow> jsstring" where
  "posix_relative cwd from to =
     (case drop_common (posix_segments cwd [from]) (posix_segments cwd [to]) of
        (up, down) \<Rightarrow> join_with [47] (map (\<lambda>seg. js ''..'') up @ down))"

text \<open>\<^verbatim>\<open>JSON.stringify(value, null, 4)\<close>\<close>

definition hex_digit :: "nat \<Rightarrow> nat" where
  "hex_digit n = (if n < 10 then 48 + n else 87 + n)"

definition unicode_escape :: "nat \<Rightarrow> jsstring" where
  "unicode_escape c =
     [92, 117, hex_digit (c div 4096 mod 16), hex_digit (c div 256 mod 16),
      hex_digit (c div 16 mod 16), hex_digit (c mod 16)]"

definition escape_unit :: "nat \<Rightarrow> jsstring" where
  "escape_unit c =
     (if c = 8 then [92, 98] else if c = 9 then [92, 116] else if c = 10 then [92, 110]
      else if c = 12 then [92, 102] else if c = 13 then [92, 114]
      else if c = 34 then [92, 34] else if c = 92 then [92, 92]
      else if c < 32 then unicode_escape c else [c])"

fun quote_units :: "jsstring \<Rightarrow> jsstring" where
  "quote_units [] = []"
| "quote_units [c] =
     (if 55296 \<le> c \<and> c \<le> 57343 then unicode_escape c else escape_unit c)"
| "quote_units (c # d # cs) =
     (if 55296 \<le> c \<and> c \<le> 56319
      then (if 56320 \<le> d \<and> d \<le> 57343 then c # d # quote_units cs
            else unicode_escape c @ quote_units (d # cs))
      else if 56320 \<le> c \<and> c \<le> 57343 then unicode_escape c @ quote_units (d # cs)
      else escape_unit c @ quote_units (d # cs))"

definition quote :: "jsstring \<Rightarrow> jsstring" where
  "quote s = [34] @ quote_units s @ [34]"

primrec indentation :: "nat \<Rightarrow> jsstring" where
  "indentation 0 = []"
| "indentation (Suc level) = js ''    '' @ indentation level"

fun stringify :: "nat \<Rightarrow> json \<Rightarrow> jsstring" where
  "stringify level JNull = js ''null''"
| "stringify level (JBool b) = (if b then js ''true'' else js ''false'')"
| "stringify level (JNum n) = (if n < 0 then 45 # decimal (nat (- n)) else decimal (nat n))"
| "stringify level (JStr s) = quote s"
| "stringify level (JArr xs) =
     (if xs = [] then js ''[]''
      else [91, 10] @ indentation (Suc level) @
           join_with ([44, 10] @ indentation (Suc level))
             (map (\<lambda>x. stringify (Suc level) x) xs) @
           [10] @ indentation level @ [93])"
| "stringify level (JObj kvs) =
     (if kvs = [] then js ''{}''
      else [123, 10] @ indentation (Suc level) @
           join_with ([44, 10] @ indentation (Suc level))
             (map (\<lambda>kv. quote (fst kv) @ [58, 32] @ stringify (Suc level) (snd kv)) kvs) @
           [10] @ indentation level @ [125])"

definition src_a :: jsstring where
  "src_a = js ''import * as mod from 'mod';\<newline>import {b} from './b';\<newline>import {c} from './c';\<newline>import {T} from './t';\<newline>import {m} from './missing';\<newline>mod.run(b + c);''"

definition src_b :: jsstring where
  "src_b = js ''import {d} from './d';\<newline>import {a} from './a';\<newline>export const b = d;''"

definition src_c :: jsstring where
  "src_c = js ''import {d} from './d';\<newline>export const c = d;''"

definition src_d :: jsstring where
  "src_d = js ''export const d = 1;''"

definition posix_env ::
    "jsstring \<Rightarrow> (jsstring \<times> jsstring) list \<Rightarrow> (jsstring \<times> jsstring list) list \<Rightarrow>
     (jsstring \<times> json) list \<Rightarrow> env" where
  "posix_env cwd fs ds parses =
     \<lparr>files = fs, dirs = ds,
      path_resolve = posix_resolve cwd, path_dirname = posix_dirname, path_join = posix_join,
      path_relative = posix_relative cwd,
      json_parse = map_of parses,
      json_stringify = (\<lambda>props. stringify 0 (JObj props))\<rparr>"

definition E0 :: env where
  "E0 = posix_env (js ''/p'')
     [(js ''/p/src/a.ts'', src_a), (js ''/p/src/b.ts'', src_b),
      (js ''/p/src/c.ts'', src_c), (js ''/p/src/d.ts'', src_d),
      (js ''/p/src/t.d.ts'', js ''export type T = number;''),
      (js ''/p/src/strings.json'', js ''{\"x\":1}'')]
     [(js ''/p/src'', [js ''a.ts'', js ''b.ts'', js ''c.ts'', js ''d.ts'', js ''t.d.ts'',
                       js ''strings.json''])]
     [(js ''{\"x\":1}'', JObj [(js ''x'', JNum 1)])]"

definition C0 :: config where
  "C0 = \<lparr>ENTRY_FILE = js ''/p/src/a.ts'', OUTPUT_FILE = js ''/p/dist/bundle.ts'',
         OUTPUT_STRINGS_FILE = js ''/p/dist/bundle.strings.json'', PROJECT_ROOT = js ''/p''\<rparr>"

definition st0 :: wstate where
  "st0 =
     \<lparr>visited = {js ''/p/src/a.ts'', js ''/p/src/b.ts'', js ''/p/src/c.ts'', js ''/p/src/d.ts''},
      buildOrder = [js ''/p/src/d.ts'', js ''/p/src/b.ts'', js ''/p/src/c.ts'', js ''/p/src/a.ts''],
      trace =
        [ReadFile (js ''/p/src/a.ts''),
         Stat (js ''/p/src/b''), Stat (js ''/p/src/b.ts''),
         ReadFile (js ''/p/src/b.ts''),
         Stat (js ''/p/src/d''), Stat (js ''/p/src/d.ts''),
         ReadFile (js ''/p/src/d.ts''),
         Stat (js ''/p/src/a''), Stat (js ''/p/src/a.ts''),
         Stat (js ''/p/src/c''), Stat (js ''/p/src/c.ts''),
         ReadFile (js ''/p/src/c.ts''),
         Stat (js ''/p/src/d''), Stat (js ''/p/src/d.ts''),
         Stat (js ''/p/src/t''), Stat (js ''/p/src/t.ts''), Stat (js ''/p/src/t/index.ts''),
         Stat (js ''/p/src/t.d.ts''),
         Stat (js ''/p/src/missing''), Stat (js ''/p/src/missing.ts''),
         Stat (js ''/p/src/missing/index.ts''), Stat (js ''/p/src/missing.d.ts''),
         Warn (js ''./missing'') (js ''/p/src'')]\<rparr>"

text \<open>A project whose only file imports a module that is not there.\<close>

definition E2 :: env where
  "E2 = posix_env (js ''/p'')
     [(js ''/p/src/main.ts'', js ''import {m} from './missing';\<newline>run(m);'')]
     [(js ''/p/src'', [js ''main.ts''])]
     []"

definition C_main :: config where
  "C_main = \<lparr>ENTRY_FILE = js ''/p/src/main.ts'', OUTPUT_FILE = js ''/p/dist/bundle.ts'',
         OUTPUT_STRINGS_FILE = js ''/p/dist/bundle.strings.json'', PROJECT_ROOT = js ''/p''\<rparr>"

text \<open>
  A project whose entry is the declaration file \<^verbatim>\<open>types.d.ts\<close>; it imports \<^verbatim>\<open>util.ts\<close>,
  which imports \<^verbatim>\<open>./types\<close>.
\<close>

definition E8 :: env where
  "E8 = posix_env (js ''/p'')
     [(js ''/p/types.d.ts'', js ''import {u} from './util';\<newline>export type T = number;''),
      (js ''/p/util.ts'', js ''import {T} from './types';\<newline>export const u = 1;'')]
     [(js ''/p'', [js ''types.d.ts'', js ''util.ts''])]
     []"

definition C8 :: config where
  "C8 = \<lparr>ENTRY_FILE = js ''/p/types.d.ts'', OUTPUT_FILE = js ''/p/dist/bundle.ts'',
         OUTPUT_STRINGS_FILE = js ''/p/dist/bundle.strings.json'', PROJECT_ROOT = js ''/p''\<rparr>"



text \<open>Two resource documents in one directory that both define the key \<^verbatim>\<open>__proto__\<close>.\<close>

definition E5 :: env where
  "E5 = posix_env (js ''/p'')
     [(js ''/p/src/main.ts'', js ''run();''),
      (js ''/p/src/a.strings.json'', js ''{\"__proto__\":\"one\",\"k\":1}''),
      (js ''/p/src/b.strings.json'', js ''{\"__proto__\":\"two\"}'')]
     [(js ''/p/src'', [js ''a.strings.json'', js ''b.strings.json'', js ''main.ts''])]
     [(js ''{\"__proto__\":\"one\",\"k\":1}'',
         JObj [(js ''__proto__'', JStr (js ''one'')), (js ''k'', JNum 1)]),
      (js ''{\"__proto__\":\"two\"}'', JObj [(js ''__proto__'', JStr (js ''two''))])]"


section \<open>The scan of a file ends\<close>

lemma mt_length: "mt k caps s = Some (caps', rest) \<Longrightarrow> length rest \<le> length s"
proof (induction k caps s arbitrary: caps' rest rule: mt.induct)
  case (1 caps s)
  then show ?case by (simp add: mt.simps)
next
  case (2 w k caps s)
  from "2.prems" have "take (length w) s = w" "mt k caps (drop (length w) s) = Some (caps', rest)"
    by (auto simp: mt.simps split: if_splits)
  with "2.IH" have "length rest \<le> length (drop (length w) s)" by blast
  then show ?case by simp
next
  case (3 c k caps s)
  from "3.prems" obtain x xs where "s = x # xs" "cmatch c x" "mt k caps xs = Some (caps', rest)"
    by (auto simp: mt.simps split: list.splits if_splits)
  with "3.IH" show ?case by fastforce
next
  case (4 c k caps s)
  from "4.prems" consider
      (nil) "s = []" "mt k caps s = Some (caps', rest)"
    | (stop) x xs where "s = x # xs" "\<not> cmatch c x" "mt k caps s = Some (caps', rest)"
    | (retreat) x xs where "s = x # xs" "cmatch c x" "mt (R (Star c) # k) caps xs = None"
        "mt k caps s = Some (caps', rest)"
    | (more) x xs where "s = x # xs" "cmatch c x" "mt (R (Star c) # k) caps xs = Some (caps', rest)"
    by (subst (asm) mt.simps) (auto split: list.splits if_splits option.splits)
  then show ?case
  proof cases
    case nil
    with "4.IH"(1) show ?thesis by blast
  next
    case stop
    with "4.IH"(4) show ?thesis by blast
  next
    case retreat
    with "4.IH"(3) show ?thesis by blast
  next
    case more
    with "4.IH"(2) have "length rest \<le> length xs" by blast
    with more show ?thesis by simp
  qed
next
  case (5 c k caps s)
  from "5.prems" consider
      (skip) "mt k caps s = Some (caps', rest)"
    | (more) x xs where "mt k caps s = None" "s = x # xs" "cmatch c x"
        "mt (R (LazyStar c) # k) caps xs = Some (caps', rest)"
    by (subst (asm) mt.simps) (auto split: list.splits if_splits option.splits)
  then show ?case
  proof cases
    case skip
    with "5.IH"(1) show ?thesis by blast
  next
    case more
    with "5.IH"(2) have "length rest \<le> length xs" by blast
    with more show ?thesis by simp
  qed
next
  case (6 r k caps s)
  from "6.prems" consider
      "mt (R r # k) caps s = Some (caps', rest)"
    | "mt (R r # k) caps s = None" "mt k caps s = Some (caps', rest)"
    by (subst (asm) mt.simps) (auto split: option.splits)
  then show ?case using "6.IH" by cases blast+
next
  case (7 a b k caps s)
  from "7.prems" have "mt (R a # R b # k) caps s = Some (caps', rest)"
    by (simp only: mt.simps)
  then show ?case by (rule "7.IH")
next
  case (8 a b k caps s)
  from "8.prems" consider
      "mt (R a # k) caps s = Some (caps', rest)"
    | "mt (R a # k) caps s = None" "mt (R b # k) caps s = Some (caps', rest)"
    by (subst (asm) mt.simps) (auto split: option.splits)
  then show ?case using "8.IH" by cases blast+
next
  case (9 k caps s)
  from "9.prems" have "mt k caps s = Some (caps', rest)"
    by (simp only: mt.simps)
  then show ?case by (rule "9.IH")
next
  case (10 n r k caps s)
  from "10.prems" have "mt (R r # Close n s # k) caps s = Some (caps', rest)"
    by (simp only: mt.simps)
  then show ?case by (rule "10.IH")
next
  case (11 n s0 k caps s)
  from "11.prems" have "mt k ((n, take (length s0 - length s) s0) # caps) s = Some (caps', rest)"
    by (simp only: mt.simps)
  then show ?case by (rule "11.IH")
qed

lemma mt_Lit_progress:
  assumes "mt (R (Lit (c # w)) # k) caps s = Some (caps', rest)"
  shows "length rest < length s"
proof -
  from assms have t: "take (Suc (length w)) s = c # w"
    and m: "mt k caps (drop (Suc (length w)) s) = Some (caps', rest)"
    by (auto simp: mt.simps split: if_splits)
  from t have "s \<noteq> []" by auto
  moreover from m have "length rest \<le> length s - Suc (length w)"
    using mt_length by fastforce
  ultimately show ?thesis by (cases s) auto
qed

lemma mt_Seq_Lit_progress:
  "mt (R (Seq (Lit (c # w)) x) # k) caps s = Some (caps', rest) \<Longrightarrow> length rest < length s"
  by (subst (asm) mt.simps(7)) (rule mt_Lit_progress)

lemma mt_Alt_cases:
  "mt (R (Alt a b) # k) caps s = Some m \<Longrightarrow>
     mt (R a # k) caps s = Some m \<or> mt (R b # k) caps s = Some m"
  by (subst (asm) mt.simps(8)) (simp split: option.splits)

lemma importRegex_progress:
  assumes "match_at importRegex s = Some (caps, rest)"
  shows "length rest < length s"
proof -
  have L: "js ''import'' = 105 # js ''mport''" by (simp add: js_def)
  from assms show ?thesis
    unfolding importRegex_def match_at_def seq.simps L
    by (elim mt_Alt_cases[THEN disjE] mt_Seq_Lit_progress)
qed

lemma exec_all_total:
  assumes "\<And>s caps rest. match_at r s = Some (caps, rest) \<Longrightarrow> length rest < length s"
  shows "\<exists>ms. exec_all r s = Some ms"
proof (induction s rule: length_induct)
  case (1 s)
  show ?case
  proof (cases "match_at r s")
    case None
    show ?thesis
    proof (cases s)
      case Nil
      with None show ?thesis by (subst exec_all.simps) simp
    next
      case (Cons c cs)
      with 1 obtain ms where "exec_all r cs = Some ms" by auto
      with None Cons show ?thesis by (subst exec_all.simps) simp
    qed
  next
    case (Some m)
    obtain caps rest where m: "m = (caps, rest)" by (cases m)
    with Some assms have lt: "length rest < length s" by blast
    with 1 obtain ms where "exec_all r rest = Some ms" by blast
    with Some m lt show ?thesis by (subst exec_all.simps) simp
  qed
qed

lemma import_specifiers_total: "\<exists>specs. import_specifiers content = Some specs"
proof -
  have "\<exists>ms. exec_all importRegex content = Some ms"
    by (rule exec_all_total) (rule importRegex_progress)
  then show ?thesis by (simp add: import_specifiers_def)
qed


section \<open>The order \<open>walk\<close> builds\<close>

lemma index_of_append: "a \<in> set xs \<Longrightarrow> index_of (xs @ ys) a = index_of xs a"
  by (induction xs) (auto simp: index_of_def)

lemma index_of_less: "a \<in> set xs \<Longrightarrow> index_of xs a < length xs"
  by (induction xs) (auto simp: index_of_def)

lemma index_of_snoc: "b \<notin> set xs \<Longrightarrow> index_of (xs @ [b]) b = length xs"
  by (induction xs) (auto simp: index_of_def)

lemma nth_index_of: "a \<in> set xs \<Longrightarrow> xs ! index_of xs a = a"
  by (induction xs) (auto simp: index_of_def)

lemma before_append: "before xs a b \<Longrightarrow> before (xs @ ys) a b"
  by (simp add: before_def index_of_append)

lemma before_snoc: "a \<in> set xs \<Longrightarrow> b \<notin> set xs \<Longrightarrow> before (xs @ [b]) a b"
  by (simp add: before_def index_of_append index_of_snoc index_of_less)

lemma set_map_filter_iff: "y \<in> set (List.map_filter f xs) \<longleftrightarrow> (\<exists>x \<in> set xs. f x = Some y)"
  by (induction xs) (auto simp: List.map_filter_simps split: option.splits)

lemma dependencies_iff:
  "readFileSync E p = Some content \<Longrightarrow> import_specifiers content = Some specs \<Longrightarrow>
   a \<in> set (dependencies E C p) \<longleftrightarrow>
     (\<exists>spec \<in> set specs. fst (resolveImport E C spec (path_dirname E p)) = Some a) \<and>
     \<not> endsWith a (js ''.d.ts'')"
  by (auto simp: dependencies_def resolved_imports_def set_map_filter_iff)

lemma walk_inv_push:
  assumes inv: "walk_inv E C st"
    and p: "p \<in> grey st"
    and deps: "\<forall>d \<in> set (dependencies E C p). d \<in> visited st"
    and reach: "\<forall>g \<in> grey st. (g, p) \<in> (edge E C)\<^sup>*"
  shows "walk_inv E C (st\<lparr>buildOrder := buildOrder st @ [p]\<rparr>)"
    and "grey (st\<lparr>buildOrder := buildOrder st @ [p]\<rparr>) = grey st - {p}"
proof -
  show "grey (st\<lparr>buildOrder := buildOrder st @ [p]\<rparr>) = grey st - {p}"
    by (auto simp: grey_def)
  have "before (buildOrder st @ [p]) d p \<or> (d, p) \<in> (edge E C)\<^sup>*"
    if "d \<in> set (dependencies E C p)" for d
  proof (cases "d \<in> set (buildOrder st)")
    case True
    moreover from p have "p \<notin> set (buildOrder st)" by (simp add: grey_def)
    ultimately show ?thesis by (simp add: before_snoc)
  next
    case False
    with deps that have "d \<in> grey st" by (simp add: grey_def)
    with reach show ?thesis by blast
  qed
  note new = this
  have old: "d \<in> visited st \<and> (before (buildOrder st @ [p]) d f \<or> (d, f) \<in> (edge E C)\<^sup>*)"
    if "f \<in> set (buildOrder st)" "d \<in> set (dependencies E C f)" for f d
    using inv that unfolding walk_inv_def by (blast intro: before_append)
  from inv p have "set (buildOrder st @ [p]) \<subseteq> visited st" "distinct (buildOrder st @ [p])"
    unfolding walk_inv_def grey_def by auto
  with new old deps show "walk_inv E C (st\<lparr>buildOrder := buildOrder st @ [p]\<rparr>)"
    unfolding walk_inv_def by auto
qed

lemma walk_inv_trace [simp]: "walk_inv E C (st\<lparr>trace := t\<rparr>) = walk_inv E C st"
  by (simp add: walk_inv_def)

lemma grey_trace [simp]: "grey (st\<lparr>trace := t\<rparr>) = grey st"
  by (simp add: grey_def)

lemma walk_inv_visit:
  "walk_inv E C st \<Longrightarrow> walk_inv E C (st\<lparr>visited := insert p (visited st)\<rparr>)"
  unfolding walk_inv_def by auto

lemma walk_correct:
  "walk E C p st = Inr st' \<Longrightarrow> walk_inv E C st \<Longrightarrow> \<forall>g \<in> grey st. (g, p) \<in> (edge E C)\<^sup>* \<Longrightarrow>
     walk_inv E C st' \<and> grey st' = grey st \<and> visited st \<subseteq> visited st' \<and> p \<in> visited st' \<and>
     (\<exists>new. buildOrder st' = buildOrder st @ new)"
  and walk_imports_correct:
  "walk_imports E C p specs st = Inr st' \<Longrightarrow> walk_inv E C st \<Longrightarrow>
     \<forall>g \<in> grey st. (g, p) \<in> (edge E C)\<^sup>* \<Longrightarrow>
     \<forall>spec \<in> set specs. \<forall>a. fst (resolveImport E C spec (path_dirname E p)) = Some a \<longrightarrow>
        \<not> endsWith a (js ''.d.ts'') \<longrightarrow> (p, a) \<in> edge E C \<Longrightarrow>
     walk_inv E C st' \<and> grey st' = grey st \<and> visited st \<subseteq> visited st' \<and>
     (\<exists>new. buildOrder st' = buildOrder st @ new) \<and>
     (\<forall>spec \<in> set specs. \<forall>a. fst (resolveImport E C spec (path_dirname E p)) = Some a \<longrightarrow>
        \<not> endsWith a (js ''.d.ts'') \<longrightarrow> a \<in> visited st')"
proof (induction E C p st and E C p specs st arbitrary: st' and st' rule: walk_walk_imports.induct)
  case (1 E C filePath st)
  show ?case
  proof (cases "filePath \<in> visited st")
    case True
    with "1.prems" show ?thesis by (simp add: walk.simps)
  next
    case False
    with "1.prems"(1) obtain content specs st1 where
      rd: "readFileSync E filePath = Some content" and
      sp: "import_specifiers content = Some specs" and
      wi: "walk_imports E C filePath specs
             (st\<lparr>visited := insert filePath (visited st), trace := trace st @ [ReadFile filePath]\<rparr>) = Inr st1" and
      st': "st' = st1\<lparr>buildOrder := buildOrder st1 @ [filePath]\<rparr>"
      by (auto simp: walk.simps split: option.splits sum.splits)
    let ?st0 = "st\<lparr>visited := insert filePath (visited st), trace := trace st @ [ReadFile filePath]\<rparr>"
    have inv0: "walk_inv E C ?st0"
      using "1.prems"(2) by (simp add: walk_inv_visit)
    have g0: "grey ?st0 = insert filePath (grey st)"
      using False "1.prems"(2) by (auto simp: grey_def walk_inv_def)
    have reach0: "\<forall>g \<in> grey ?st0. (g, filePath) \<in> (edge E C)\<^sup>*"
      using "1.prems"(3) g0 by auto
    have edges: "\<forall>spec \<in> set specs. \<forall>a. fst (resolveImport E C spec (path_dirname E filePath)) = Some a \<longrightarrow>
        \<not> endsWith a (js ''.d.ts'') \<longrightarrow> (filePath, a) \<in> edge E C"
      using dependencies_iff[OF rd sp] by (auto simp: edge_def)
    from "1.IH"[OF False rd sp wi inv0 reach0 edges]
    have inv1: "walk_inv E C st1" and g1: "grey st1 = grey ?st0"
      and v1: "visited ?st0 \<subseteq> visited st1"
      and o1: "\<exists>new. buildOrder st1 = buildOrder ?st0 @ new"
      and d1: "\<forall>spec \<in> set specs. \<forall>a. fst (resolveImport E C spec (path_dirname E filePath)) = Some a \<longrightarrow>
        \<not> endsWith a (js ''.d.ts'') \<longrightarrow> a \<in> visited st1"
      by blast+
    have pg: "filePath \<in> grey st1" using g1 g0 by simp
    have deps: "\<forall>d \<in> set (dependencies E C filePath). d \<in> visited st1"
      using dependencies_iff[OF rd sp] d1 by blast
    have reach1: "\<forall>g \<in> grey st1. (g, filePath) \<in> (edge E C)\<^sup>*"
      using reach0 g1 by simp
    have "walk_inv E C st'" "grey st' = grey st1 - {filePath}"
      using walk_inv_push[OF inv1 pg deps reach1] st' by simp_all
    moreover have "grey st1 - {filePath} = grey st"
      using g1 g0 False by (auto simp: grey_def)
    moreover have "visited st \<subseteq> visited st'" "filePath \<in> visited st'"
      using v1 st' by auto
    moreover have "\<exists>new. buildOrder st' = buildOrder st @ new"
      using o1 st' by auto
    ultimately show ?thesis by simp
  qed
next
  case (2 E C filePath st)
  then show ?case by (simp add: walk_imports.simps)
next
  case (3 E C filePath importPath rest st)
  obtain r evs where res: "resolveImport E C importPath (path_dirname E filePath) = (r, evs)"
    by (cases "resolveImport E C importPath (path_dirname E filePath)")
  let ?st1 = "st\<lparr>trace := trace st @ evs\<rparr>"
  have edges_rest: "\<forall>spec \<in> set rest. \<forall>a. fst (resolveImport E C spec (path_dirname E filePath)) = Some a \<longrightarrow>
        \<not> endsWith a (js ''.d.ts'') \<longrightarrow> (filePath, a) \<in> edge E C"
    using "3.prems"(4) by simp
  show ?case
  proof (cases "\<exists>a. r = Some a \<and> \<not> endsWith a (js ''.d.ts'')")
    case True
    then obtain a where a: "r = Some a" "\<not> endsWith a (js ''.d.ts'')" by blast
    with "3.prems"(1) res obtain st2 where
      w: "walk E C a ?st1 = Inr st2" and wr: "walk_imports E C filePath rest st2 = Inr st'"
      by (auto simp: walk_imports.simps split: sum.splits)
    have pa: "(filePath, a) \<in> edge E C"
      using "3.prems"(4) res a by simp
    have reach_a: "\<forall>g \<in> grey ?st1. (g, a) \<in> (edge E C)\<^sup>*"
      using "3.prems"(3) pa by (auto intro: rtrancl_into_rtrancl)
    from "3.IH"(2)[OF res[symmetric] a(1) a(2) w _ reach_a] "3.prems"(2)
    have inv2: "walk_inv E C st2" and g2: "grey st2 = grey st" and v2: "visited st \<subseteq> visited st2"
      and av: "a \<in> visited st2" and o2: "\<exists>new. buildOrder st2 = buildOrder st @ new"
      by auto
    have reach2: "\<forall>g \<in> grey st2. (g, filePath) \<in> (edge E C)\<^sup>*"
      using "3.prems"(3) g2 by simp
    from "3.IH"(3)[OF res[symmetric] a(1) a(2) w wr inv2 reach2 edges_rest]
    have R: "walk_inv E C st'" "grey st' = grey st2" "visited st2 \<subseteq> visited st'"
      "\<exists>new. buildOrder st' = buildOrder st2 @ new"
      "\<forall>spec \<in> set rest. \<forall>a. fst (resolveImport E C spec (path_dirname E filePath)) = Some a \<longrightarrow>
        \<not> endsWith a (js ''.d.ts'') \<longrightarrow> a \<in> visited st'"
      by blast+
    have "\<exists>new. buildOrder st' = buildOrder st @ new"
      using o2 R(4) by auto
    moreover have "\<forall>b. fst (resolveImport E C importPath (path_dirname E filePath)) = Some b \<longrightarrow>
        \<not> endsWith b (js ''.d.ts'') \<longrightarrow> b \<in> visited st'"
      using res a av R(3) by auto
    ultimately show ?thesis using R g2 v2 by auto
  next
    case False
    with "3.prems"(1) res have wr: "walk_imports E C filePath rest ?st1 = Inr st'"
      by (auto simp: walk_imports.simps split: option.splits if_splits)
    have inv1: "walk_inv E C ?st1" using "3.prems"(2) by simp
    have reach1: "\<forall>g \<in> grey ?st1. (g, filePath) \<in> (edge E C)\<^sup>*" using "3.prems"(3) by simp
    have R: "walk_inv E C st' \<and> grey st' = grey ?st1 \<and> visited ?st1 \<subseteq> visited st' \<and>
     (\<exists>new. buildOrder st' = buildOrder ?st1 @ new) \<and>
     (\<forall>spec \<in> set rest. \<forall>a. fst (resolveImport E C spec (path_dirname E filePath)) = Some a \<longrightarrow>
        \<not> endsWith a (js ''.d.ts'') \<longrightarrow> a \<in> visited st')"
    proof (cases r)
      case None
      from "3.IH"(1)[OF res[symmetric] None wr inv1 reach1 edges_rest] show ?thesis .
    next
      case (Some a)
      with False have "\<not> \<not> endsWith a (js ''.d.ts'')" by simp
      from "3.IH"(4)[OF res[symmetric] Some this wr inv1 reach1 edges_rest] show ?thesis .
    qed
    moreover have "\<forall>b. fst (resolveImport E C importPath (path_dirname E filePath)) = Some b \<longrightarrow>
        \<not> endsWith b (js ''.d.ts'') \<longrightarrow> b \<in> visited st'"
      using res False by auto
    ultimately show ?thesis by auto
  qed
qed


lemma try_extensions_isFile:
  "try_extensions E t exts = (Some a, evs) \<Longrightarrow> isFile E a"
  by (induction exts arbitrary: evs) (auto split: if_splits prod.splits)

lemma resolveImport_isFile:
  "resolveImport E C spec dir = (Some a, evs) \<Longrightarrow> isFile E a"
  by (auto simp: resolveImport_def Let_def split: if_splits prod.splits option.splits
      dest: try_extensions_isFile)

lemma walk_succeeds:
  "isFile E p \<or> p \<in> visited st \<Longrightarrow> \<exists>st'. walk E C p st = Inr st'"
  and walk_imports_succeeds:
  "\<exists>st'. walk_imports E C p specs st = Inr st'"
proof (induction E C p st and E C p specs st rule: walk_walk_imports.induct)
  case (1 E C filePath st)
  show ?case
  proof (cases "filePath \<in> visited st")
    case True
    then show ?thesis by (simp add: walk.simps)
  next
    case False
    with "1.prems" obtain content where rd: "readFileSync E filePath = Some content"
      by (auto simp: isFile_def readFileSync_def)
    obtain specs where sp: "import_specifiers content = Some specs"
      using import_specifiers_total by blast
    from "1.IH"[OF False rd sp] obtain st1 where
      "walk_imports E C filePath specs
         (st\<lparr>visited := insert filePath (visited st), trace := trace st @ [ReadFile filePath]\<rparr>) = Inr st1"
      by blast
    with False rd sp show ?thesis by (simp add: walk.simps)
  qed
next
  case (2 E C filePath st)
  then show ?case by (simp add: walk_imports.simps)
next
  case (3 E C filePath importPath rest st)
  obtain r evs where res: "resolveImport E C importPath (path_dirname E filePath) = (r, evs)"
    by (cases "resolveImport E C importPath (path_dirname E filePath)")
  show ?case
  proof (cases r)
    case None
    with "3.IH"(1)[OF res[symmetric] None] res show ?thesis
      by (simp add: walk_imports.simps)
  next
    case (Some a)
    show ?thesis
    proof (cases "endsWith a (js ''.d.ts'')")
      case True
      with "3.IH"(4)[OF res[symmetric] Some] res Some show ?thesis
        by (simp add: walk_imports.simps)
    next
      case False
      from res Some have "isFile E a" by (auto dest: resolveImport_isFile)
      with "3.IH"(2)[OF res[symmetric] Some False] obtain st2 where
        w: "walk E C a (st\<lparr>trace := trace st @ evs\<rparr>) = Inr st2" by blast
      from "3.IH"(3)[OF res[symmetric] Some False w] obtain st3 where
        "walk_imports E C filePath rest st2 = Inr st3" by blast
      with w res Some False show ?thesis by (simp add: walk_imports.simps)
    qed
  qed
qed

lemma walk_inv_init: "walk_inv E C init_wstate" "grey init_wstate = {}"
  by (simp_all add: walk_inv_def init_wstate_def grey_def)

lemma walk_from_init:
  assumes "walk E C entry init_wstate = Inr st"
  shows "walk_inv E C st" and "visited st = set (buildOrder st)" and "entry \<in> set (buildOrder st)"
proof -
  from walk_correct[OF assms walk_inv_init(1)] walk_inv_init(2)
  have inv: "walk_inv E C st" and g: "grey st = {}" and e: "entry \<in> visited st"
    by auto
  from inv g show "visited st = set (buildOrder st)"
    by (auto simp: grey_def walk_inv_def)
  with e show "entry \<in> set (buildOrder st)" by simp
  from inv show "walk_inv E C st" .
qed


lemma walk_new_elements:
  "walk E C p st = Inr st' \<Longrightarrow> x \<in> set (buildOrder st') \<Longrightarrow> x \<notin> set (buildOrder st) \<Longrightarrow>
     isFile E x \<and> (x = p \<or> \<not> endsWith x (js ''.d.ts''))"
  and walk_imports_new_elements:
  "walk_imports E C p specs st = Inr st' \<Longrightarrow> x \<in> set (buildOrder st') \<Longrightarrow>
     x \<notin> set (buildOrder st) \<Longrightarrow> isFile E x \<and> \<not> endsWith x (js ''.d.ts'')"
proof (induction E C p st and E C p specs st arbitrary: st' and st' rule: walk_walk_imports.induct)
  case (1 E C filePath st)
  show ?case
  proof (cases "filePath \<in> visited st")
    case True
    with "1.prems" show ?thesis by (simp add: walk.simps)
  next
    case False
    with "1.prems"(1) obtain content specs st1 where
      rd: "readFileSync E filePath = Some content" and
      sp: "import_specifiers content = Some specs" and
      wi: "walk_imports E C filePath specs
             (st\<lparr>visited := insert filePath (visited st), trace := trace st @ [ReadFile filePath]\<rparr>) = Inr st1" and
      st': "st' = st1\<lparr>buildOrder := buildOrder st1 @ [filePath]\<rparr>"
      by (auto simp: walk.simps split: option.splits sum.splits)
    from rd have f: "isFile E filePath" by (simp add: isFile_def readFileSync_def)
    show ?thesis
    proof (cases "x = filePath")
      case True
      with f show ?thesis by simp
    next
      case False
      with "1.prems"(2) st' have "x \<in> set (buildOrder st1)" by simp
      with "1.IH"[OF \<open>filePath \<notin> visited st\<close> rd sp wi] "1.prems"(3) show ?thesis by simp
    qed
  qed
next
  case (2 E C filePath st)
  then show ?case by (simp add: walk_imports.simps)
next
  case (3 E C filePath importPath rest st)
  obtain r evs where res: "resolveImport E C importPath (path_dirname E filePath) = (r, evs)"
    by (cases "resolveImport E C importPath (path_dirname E filePath)")
  let ?st1 = "st\<lparr>trace := trace st @ evs\<rparr>"
  show ?case
  proof (cases "\<exists>a. r = Some a \<and> \<not> endsWith a (js ''.d.ts'')")
    case True
    then obtain a where a: "r = Some a" "\<not> endsWith a (js ''.d.ts'')" by blast
    with "3.prems"(1) res obtain st2 where
      w: "walk E C a ?st1 = Inr st2" and wr: "walk_imports E C filePath rest st2 = Inr st'"
      by (auto simp: walk_imports.simps split: sum.splits)
    show ?thesis
    proof (cases "x \<in> set (buildOrder st2)")
      case True
      with "3.IH"(2)[OF res[symmetric] a w] "3.prems"(3) a(2) show ?thesis by auto
    next
      case False
      with "3.IH"(3)[OF res[symmetric] a w wr] "3.prems"(2) show ?thesis by simp
    qed
  next
    case False
    with "3.prems"(1) res have wr: "walk_imports E C filePath rest ?st1 = Inr st'"
      by (auto simp: walk_imports.simps split: option.splits if_splits)
    show ?thesis
    proof (cases r)
      case None
      from "3.IH"(1)[OF res[symmetric] None wr] "3.prems" show ?thesis by simp
    next
      case (Some a)
      with False have "\<not> \<not> endsWith a (js ''.d.ts'')" by simp
      from "3.IH"(4)[OF res[symmetric] Some this wr] "3.prems" show ?thesis by simp
    qed
  qed
qed


lemma walk_closed:
  assumes w: "walk E C entry init_wstate = Inr st" and r: "(entry, f) \<in> (edge E C)\<^sup>*"
  shows "f \<in> set (buildOrder st)"
  using r
proof (induction rule: rtrancl_induct)
  case base
  from walk_from_init(3)[OF w] show ?case .
next
  case (step y z)
  from walk_from_init(1)[OF w] step have "z \<in> visited st"
    by (auto simp: walk_inv_def edge_def)
  with walk_from_init(2)[OF w] show ?case by simp
qed

lemma walk_reachable_only:
  "walk E C p st = Inr st' \<Longrightarrow> x \<in> set (buildOrder st') \<Longrightarrow> x \<notin> set (buildOrder st) \<Longrightarrow>
     (p, x) \<in> (edge E C)\<^sup>*"
  and walk_imports_reachable_only:
  "walk_imports E C p specs st = Inr st' \<Longrightarrow> x \<in> set (buildOrder st') \<Longrightarrow>
     x \<notin> set (buildOrder st) \<Longrightarrow>
     \<forall>spec \<in> set specs. \<forall>a. fst (resolveImport E C spec (path_dirname E p)) = Some a \<longrightarrow>
        \<not> endsWith a (js ''.d.ts'') \<longrightarrow> (p, a) \<in> edge E C \<Longrightarrow>
     (p, x) \<in> (edge E C)\<^sup>+"
proof (induction E C p st and E C p specs st arbitrary: st' and st' rule: walk_walk_imports.induct)
  case (1 E C filePath st)
  show ?case
  proof (cases "filePath \<in> visited st")
    case True
    with "1.prems" show ?thesis by (simp add: walk.simps)
  next
    case False
    with "1.prems"(1) obtain content specs st1 where
      rd: "readFileSync E filePath = Some content" and
      sp: "import_specifiers content = Some specs" and
      wi: "walk_imports E C filePath specs
             (st\<lparr>visited := insert filePath (visited st), trace := trace st @ [ReadFile filePath]\<rparr>) = Inr st1" and
      st': "st' = st1\<lparr>buildOrder := buildOrder st1 @ [filePath]\<rparr>"
      by (auto simp: walk.simps split: option.splits sum.splits)
    have edges: "\<forall>spec \<in> set specs. \<forall>a. fst (resolveImport E C spec (path_dirname E filePath)) = Some a \<longrightarrow>
        \<not> endsWith a (js ''.d.ts'') \<longrightarrow> (filePath, a) \<in> edge E C"
      using dependencies_iff[OF rd sp] by (auto simp: edge_def)
    show ?thesis
    proof (cases "x = filePath")
      case True
      then show ?thesis by simp
    next
      case False
      with "1.prems"(2) st' have "x \<in> set (buildOrder st1)" by simp
      with "1.IH"[OF \<open>filePath \<notin> visited st\<close> rd sp wi _ _ edges] "1.prems"(3)
      show ?thesis by (simp add: trancl_into_rtrancl)
    qed
  qed
next
  case (2 E C filePath st)
  then show ?case by (simp add: walk_imports.simps)
next
  case (3 E C filePath importPath rest st)
  obtain r evs where res: "resolveImport E C importPath (path_dirname E filePath) = (r, evs)"
    by (cases "resolveImport E C importPath (path_dirname E filePath)")
  let ?st1 = "st\<lparr>trace := trace st @ evs\<rparr>"
  have edges_rest: "\<forall>spec \<in> set rest. \<forall>a. fst (resolveImport E C spec (path_dirname E filePath)) = Some a \<longrightarrow>
        \<not> endsWith a (js ''.d.ts'') \<longrightarrow> (filePath, a) \<in> edge E C"
    using "3.prems"(4) by simp
  show ?case
  proof (cases "\<exists>a. r = Some a \<and> \<not> endsWith a (js ''.d.ts'')")
    case True
    then obtain a where a: "r = Some a" "\<not> endsWith a (js ''.d.ts'')" by blast
    with "3.prems"(1) res obtain st2 where
      w: "walk E C a ?st1 = Inr st2" and wr: "walk_imports E C filePath rest st2 = Inr st'"
      by (auto simp: walk_imports.simps split: sum.splits)
    have pa: "(filePath, a) \<in> edge E C"
      using "3.prems"(4) res a by simp
    show ?thesis
    proof (cases "x \<in> set (buildOrder st2)")
      case True
      with "3.IH"(2)[OF res[symmetric] a w] "3.prems"(3) have "(a, x) \<in> (edge E C)\<^sup>*" by simp
      with pa show ?thesis by (rule rtrancl_into_trancl2)
    next
      case False
      with "3.IH"(3)[OF res[symmetric] a w wr "3.prems"(2) _ edges_rest] show ?thesis by simp
    qed
  next
    case False
    with "3.prems"(1) res have wr: "walk_imports E C filePath rest ?st1 = Inr st'"
      by (auto simp: walk_imports.simps split: option.splits if_splits)
    show ?thesis
    proof (cases r)
      case None
      from "3.IH"(1)[OF res[symmetric] None wr "3.prems"(2) _ edges_rest] "3.prems"(3)
      show ?thesis by simp
    next
      case (Some a)
      with False have "\<not> \<not> endsWith a (js ''.d.ts'')" by simp
      from "3.IH"(4)[OF res[symmetric] Some this wr "3.prems"(2) _ edges_rest] "3.prems"(3)
      show ?thesis by simp
    qed
  qed
qed

lemma buildOrder_reachable:
  assumes "walk E C entry init_wstate = Inr st"
  shows "set (buildOrder st) = {f. (entry, f) \<in> (edge E C)\<^sup>*}"
proof -
  have "(entry, x) \<in> (edge E C)\<^sup>*" if "x \<in> set (buildOrder st)" for x
    using walk_reachable_only[OF assms that] by (simp add: init_wstate_def)
  with walk_closed[OF assms] show ?thesis by blast
qed



lemma no_dependencies_reach:
  assumes "(d, x) \<in> (edge E C)\<^sup>*" and "dependencies E C d = []"
  shows "x = d"
  using assms by (induction rule: converse_rtrancl_induct) (auto simp: edge_def)

lemma resolveImport_ignored:
  "importPath \<in> set EXTERNAL_MODULES \<Longrightarrow> resolveImport E C importPath dir = (None, [])"
  by (simp add: resolveImport_def)

lemma walk_imports_ignored:
  "importPath \<in> set EXTERNAL_MODULES \<Longrightarrow>
     walk_imports E C filePath (importPath # rest) st = walk_imports E C filePath rest st"
  by (simp add: walk_imports.simps resolveImport_ignored)

lemma concat_sources_ok:
  "\<forall>p \<in> set order. readFileSync E p \<noteq> None \<Longrightarrow> \<exists>ls. concat_sources E C order = Inr ls"
  by (induction order) auto

lemma readFileSync_write:
  "readFileSync E p \<noteq> None \<Longrightarrow> readFileSync (writeFileSync E q t) p \<noteq> None"
  by (simp add: readFileSync_def writeFileSync_def)

lemma walk_order_readable:
  assumes "walk E C entry init_wstate = Inr st" and "p \<in> set (buildOrder st)"
  shows "readFileSync E p \<noteq> None"
  using walk_new_elements[OF assms] by (simp add: init_wstate_def isFile_def readFileSync_def)

lemma set_insert_index: "set (insert_index n kv props) = insert kv (set props)"
  by (induction props) (auto split: option.splits)

lemma set_add_own: "set (add_own kv props) = insert kv (set props)"
  by (auto simp: add_own_def set_insert_index split: option.splits)

lemma hasOwnProperty_iff: "hasOwnProperty m k \<longleftrightarrow> k \<in> fst ` set (own m)"
  by (simp add: hasOwnProperty_def map_of_eq_None_iff)

lemma hasOwnProperty_assign:
  "hasOwnProperty m k \<Longrightarrow> hasOwnProperty (assign m key v) k"
  by (auto simp: hasOwnProperty_iff assign_def set_add_own image_iff
      split: json.splits prod.splits)

lemma merge_keys_conflict:
  "k \<in> fst ` set kvs \<Longrightarrow> hasOwnProperty m k \<Longrightarrow>
     \<exists>key \<in> fst ` set kvs.
        merge_keys E C jsonPath kvs m =
          Inl (DuplicateKey key (path_relative E (PROJECT_ROOT C) jsonPath))"
proof (induction kvs arbitrary: m)
  case Nil
  then show ?case by simp
next
  case (Cons kv kvs)
  obtain key v where kv: "kv = (key, v)" by (cases kv)
  show ?case
  proof (cases "hasOwnProperty m key")
    case True
    with kv show ?thesis by simp
  next
    case False
    with Cons.prems kv have "k \<in> fst ` set kvs" by auto
    moreover from Cons.prems(2) have "hasOwnProperty (assign m key v) k"
      by (rule hasOwnProperty_assign)
    ultimately obtain key' where "key' \<in> fst ` set kvs"
      "merge_keys E C jsonPath kvs (assign m key v) =
         Inl (DuplicateKey key' (path_relative E (PROJECT_ROOT C) jsonPath))"
      using Cons.IH by blast
    with False kv show ?thesis by auto
  qed
qed

lemma merge_keys_fresh:
  "distinct (map fst kvs) \<Longrightarrow> fst ` set kvs \<inter> fst ` set (own m) = {} \<Longrightarrow>
   js ''__proto__'' \<notin> fst ` set kvs \<Longrightarrow>
     \<exists>m'. merge_keys E C jsonPath kvs m = Inr m' \<and>
          set (own m') = set (own m) \<union> set kvs \<and> proto m' = proto m"
proof (induction kvs arbitrary: m)
  case Nil
  then show ?case by simp
next
  case (Cons kv kvs)
  obtain key v where kv: "kv = (key, v)" by (cases kv)
  from Cons.prems kv have fresh: "\<not> hasOwnProperty m key"
    by (auto simp: hasOwnProperty_iff)
  from Cons.prems kv have np: "key \<noteq> js ''__proto__''" by auto
  from fresh np have a: "assign m key v = m\<lparr>own := add_own (key, v) (own m)\<rparr>"
    by (simp add: assign_def)
  have "\<exists>m'. merge_keys E C jsonPath kvs (assign m key v) = Inr m' \<and>
          set (own m') = set (own (assign m key v)) \<union> set kvs \<and> proto m' = proto (assign m key v)"
  proof (rule Cons.IH)
    from Cons.prems(1) show "distinct (map fst kvs)" by simp
    from Cons.prems(1,2) kv show "fst ` set kvs \<inter> fst ` set (own (assign m key v)) = {}"
      unfolding a by (auto simp: image_iff set_add_own)
    from Cons.prems(3) show "js ''__proto__'' \<notin> fst ` set kvs" by simp
  qed
  with fresh kv a show ?case by (auto simp: set_add_own)
qed

lemma replace_all_no_match: "\<not> matches_somewhere r s \<Longrightarrow> replace_all r s = s"
proof (induction s)
  case Nil
  then have "match_at r [] = None" by (cases "match_at r []") auto
  then show ?case by (subst replace_all.simps) simp
next
  case (Cons c cs)
  then have "match_at r (c # cs) = None" by (cases "match_at r (c # cs)") auto
  moreover from Cons have "replace_all r cs = cs" by simp
  ultimately show ?case by (subst replace_all.simps) simp
qed

section \<open>The trace of a walk and the lines of the bundle\<close>

lemma resolved_in_mono: "resolved_in E C evs f \<Longrightarrow> resolved_in E C (a @ evs @ b) f"
  unfolding resolved_in_def
proof (intro allI impI ballI)
  fix content specs spec
  assume h: "\<forall>content specs. readFileSync E f = Some content \<longrightarrow>
      import_specifiers content = Some specs \<longrightarrow>
      (\<forall>spec \<in> set specs.
         \<exists>pre post. evs = pre @ snd (resolveImport E C spec (path_dirname E f)) @ post)"
    and "readFileSync E f = Some content" "import_specifiers content = Some specs"
    "spec \<in> set specs"
  then obtain pre post where
    "evs = pre @ snd (resolveImport E C spec (path_dirname E f)) @ post" by blast
  then have "a @ evs @ b = (a @ pre) @ snd (resolveImport E C spec (path_dirname E f)) @ (post @ b)"
    by simp
  then show "\<exists>pre post. a @ evs @ b = pre @ snd (resolveImport E C spec (path_dirname E f)) @ post"
    by blast
qed

lemma walk_trace:
  "walk E C p st = Inr st' \<Longrightarrow>
     \<exists>suf. trace st' = trace st @ suf \<and>
       (\<forall>f \<in> set (buildOrder st'). f \<notin> set (buildOrder st) \<longrightarrow> resolved_in E C suf f)"
  and walk_imports_trace:
  "walk_imports E C p specs st = Inr st' \<Longrightarrow>
     \<exists>suf. trace st' = trace st @ suf \<and>
       (\<forall>spec \<in> set specs.
          \<exists>pre post. suf = pre @ snd (resolveImport E C spec (path_dirname E p)) @ post) \<and>
       (\<forall>f \<in> set (buildOrder st'). f \<notin> set (buildOrder st) \<longrightarrow> resolved_in E C suf f)"
proof (induction E C p st and E C p specs st arbitrary: st' and st' rule: walk_walk_imports.induct)
  case (1 E C filePath st)
  show ?case
  proof (cases "filePath \<in> visited st")
    case True
    with "1.prems" have "st' = st" by (simp add: walk.simps)
    then show ?thesis by simp
  next
    case False
    with "1.prems"(1) obtain content specs st1 where
      rd: "readFileSync E filePath = Some content" and
      sp: "import_specifiers content = Some specs" and
      wi: "walk_imports E C filePath specs
             (st\<lparr>visited := insert filePath (visited st), trace := trace st @ [ReadFile filePath]\<rparr>) = Inr st1" and
      st': "st' = st1\<lparr>buildOrder := buildOrder st1 @ [filePath]\<rparr>"
      by (auto simp: walk.simps split: option.splits sum.splits)
    from "1.IH"[OF False rd sp wi] obtain suf1 where
      t1: "trace st1 = (trace st @ [ReadFile filePath]) @ suf1" and
      s1: "\<forall>spec \<in> set specs.
          \<exists>pre post. suf1 = pre @ snd (resolveImport E C spec (path_dirname E filePath)) @ post" and
      n1: "\<forall>f \<in> set (buildOrder st1). f \<notin> set (buildOrder st) \<longrightarrow> resolved_in E C suf1 f"
      by auto
    have self: "resolved_in E C suf1 filePath"
      using rd sp s1 by (simp add: resolved_in_def)
    have "resolved_in E C ([ReadFile filePath] @ suf1 @ []) f"
      if "f \<in> set (buildOrder st')" "f \<notin> set (buildOrder st)" for f
    proof (rule resolved_in_mono)
      from that st' n1 self show "resolved_in E C suf1 f" by auto
    qed
    with t1 st' show ?thesis by simp
  qed
next
  case (2 E C filePath st)
  then show ?case by (simp add: walk_imports.simps)
next
  case (3 E C filePath importPath rest st)
  obtain r evs where res: "resolveImport E C importPath (path_dirname E filePath) = (r, evs)"
    by (cases "resolveImport E C importPath (path_dirname E filePath)")
  let ?st1 = "st\<lparr>trace := trace st @ evs\<rparr>"
  let ?ev = "\<lambda>spec. snd (resolveImport E C spec (path_dirname E filePath))"
  have tail: ?case
    if t3: "trace st' = trace st @ evs @ s2 @ s3"
      and r3: "\<forall>spec \<in> set rest. \<exists>pre post. s3 = pre @ ?ev spec @ post"
      and n3: "\<forall>f \<in> set (buildOrder st'). f \<notin> set (buildOrder st) \<longrightarrow>
                 resolved_in E C s2 f \<or> resolved_in E C s3 f"
    for s2 s3
  proof -
    have "\<exists>pre post. evs @ s2 @ s3 = pre @ ?ev spec @ post" if "spec \<in> set (importPath # rest)" for spec
    proof (cases "spec = importPath")
      case True
      with res have "evs @ s2 @ s3 = [] @ ?ev spec @ (s2 @ s3)" by simp
      then show ?thesis by blast
    next
      case False
      with that r3 obtain pre post where "s3 = pre @ ?ev spec @ post" by auto
      then have "evs @ s2 @ s3 = (evs @ s2 @ pre) @ ?ev spec @ post" by simp
      then show ?thesis by blast
    qed
    moreover have "resolved_in E C (evs @ s2 @ s3) f"
      if "f \<in> set (buildOrder st')" "f \<notin> set (buildOrder st)" for f
    proof -
      from that n3 consider "resolved_in E C s2 f" | "resolved_in E C s3 f" by blast
      then show ?thesis
      proof cases
        case 1
        from resolved_in_mono[OF this, of evs s3] show ?thesis .
      next
        case 2
        from resolved_in_mono[OF this, of "evs @ s2" "[]"] show ?thesis by simp
      qed
    qed
    ultimately show ?thesis using t3 by blast
  qed
  show ?case
  proof (cases "\<exists>a. r = Some a \<and> \<not> endsWith a (js ''.d.ts'')")
    case True
    then obtain a where a: "r = Some a" "\<not> endsWith a (js ''.d.ts'')" by blast
    with "3.prems"(1) res obtain st2 where
      w: "walk E C a ?st1 = Inr st2" and wr: "walk_imports E C filePath rest st2 = Inr st'"
      by (auto simp: walk_imports.simps split: sum.splits)
    from "3.IH"(2)[OF res[symmetric] a w] obtain s2 where
      t2: "trace st2 = trace ?st1 @ s2" and
      n2: "\<forall>f \<in> set (buildOrder st2). f \<notin> set (buildOrder ?st1) \<longrightarrow> resolved_in E C s2 f"
      by auto
    from "3.IH"(3)[OF res[symmetric] a w wr] obtain s3 where
      t3: "trace st' = trace st2 @ s3" and
      r3: "\<forall>spec \<in> set rest. \<exists>pre post. s3 = pre @ ?ev spec @ post" and
      n3: "\<forall>f \<in> set (buildOrder st'). f \<notin> set (buildOrder st2) \<longrightarrow> resolved_in E C s3 f"
      by auto
    show ?thesis
    proof (rule tail[of s2 s3])
      from t2 t3 show "trace st' = trace st @ evs @ s2 @ s3" by simp
      from r3 show "\<forall>spec \<in> set rest. \<exists>pre post. s3 = pre @ ?ev spec @ post" .
      from n2 n3 show "\<forall>f \<in> set (buildOrder st'). f \<notin> set (buildOrder st) \<longrightarrow>
                 resolved_in E C s2 f \<or> resolved_in E C s3 f"
        by auto
    qed
  next
    case False
    with "3.prems"(1) res have wr: "walk_imports E C filePath rest ?st1 = Inr st'"
      by (auto simp: walk_imports.simps split: option.splits if_splits)
    have "\<exists>s3. trace st' = trace ?st1 @ s3 \<and>
       (\<forall>spec \<in> set rest. \<exists>pre post. s3 = pre @ ?ev spec @ post) \<and>
       (\<forall>f \<in> set (buildOrder st'). f \<notin> set (buildOrder ?st1) \<longrightarrow> resolved_in E C s3 f)"
    proof (cases r)
      case None
      from "3.IH"(1)[OF res[symmetric] None wr] show ?thesis .
    next
      case (Some a)
      with False have "\<not> \<not> endsWith a (js ''.d.ts'')" by simp
      from "3.IH"(4)[OF res[symmetric] Some this wr] show ?thesis .
    qed
    then obtain s3 where
      t3: "trace st' = trace ?st1 @ s3" and
      r3: "\<forall>spec \<in> set rest. \<exists>pre post. s3 = pre @ ?ev spec @ post" and
      n3: "\<forall>f \<in> set (buildOrder st'). f \<notin> set (buildOrder ?st1) \<longrightarrow> resolved_in E C s3 f"
      by auto
    show ?thesis
    proof (rule tail[of "[]" s3])
      from t3 show "trace st' = trace st @ evs @ [] @ s3" by simp
      from r3 show "\<forall>spec \<in> set rest. \<exists>pre post. s3 = pre @ ?ev spec @ post" .
      from n3 show "\<forall>f \<in> set (buildOrder st'). f \<notin> set (buildOrder st) \<longrightarrow>
                 resolved_in E C [] f \<or> resolved_in E C s3 f"
        by auto
    qed
  qed
qed

lemma walk_logs_imports:
  assumes "walk E C entry init_wstate = Inr st" and "f \<in> set (buildOrder st)"
    and "readFileSync E f = Some content" and "import_specifiers content = Some specs"
    and "spec \<in> set specs"
  shows "\<exists>pre post. trace st = pre @ snd (resolveImport E C spec (path_dirname E f)) @ post"
proof -
  from walk_trace[OF assms(1)] assms(2) have "resolved_in E C (trace st) f"
    by (auto simp: init_wstate_def)
  with assms(3-5) show ?thesis by (simp add: resolved_in_def)
qed

lemma concat_sources_append:
  "concat_sources E C (xs @ ys) =
     (case concat_sources E C xs of
        Inl e \<Rightarrow> Inl e
      | Inr a \<Rightarrow> (case concat_sources E C ys of Inl e \<Rightarrow> Inl e | Inr b \<Rightarrow> Inr (a @ b)))"
  by (induction xs) (auto split: option.splits sum.splits)

lemma build_walked:
  "isFile E (ENTRY_FILE C) \<Longrightarrow> walk E C (ENTRY_FILE C) init_wstate = Inr (walked (build E C))"
  using walk_succeeds[of E "ENTRY_FILE C" init_wstate C]
  by (auto simp: build_def existsSync_def split: sum.splits)

lemma walk_entry_isFile:
  assumes "walk E C entry init_wstate = Inr st"
  shows "isFile E entry"
  using walk_order_readable[OF assms walk_from_init(3)[OF assms]]
  by (simp add: isFile_def readFileSync_def)

lemma build_written:
  assumes w: "walk E C (ENTRY_FILE C) init_wstate = Inr st"
    and p: "processStrings E C (buildOrder st) = Inr m"
  shows "\<exists>ls. concat_sources (writeFileSync E (OUTPUT_STRINGS_FILE C) (json_stringify E (own m)))
                 C (buildOrder st) = Inr ls \<and>
           failure (build E C) = None \<and>
           written (build E C) =
             [(OUTPUT_STRINGS_FILE C, json_stringify E (own m)),
              (OUTPUT_FILE C, join_lines (banner @ ls))] \<and>
           walked (build E C) = st"
proof -
  let ?E = "writeFileSync E (OUTPUT_STRINGS_FILE C) (json_stringify E (own m))"
  have "\<forall>p \<in> set (buildOrder st). readFileSync ?E p \<noteq> None"
    using walk_order_readable[OF w] readFileSync_write by blast
  then obtain ls where ls: "concat_sources ?E C (buildOrder st) = Inr ls"
    using concat_sources_ok by blast
  from walk_entry_isFile[OF w] have "existsSync E (ENTRY_FILE C)"
    by (simp add: existsSync_def)
  with w p ls show ?thesis by (simp add: build_def)
qed

lemma build_strings_failure:
  assumes w: "walk E C (ENTRY_FILE C) init_wstate = Inr st"
    and p: "processStrings E C (buildOrder st) = Inl e"
  shows "failure (build E C) = Some e"
proof -
  from walk_entry_isFile[OF w] have "existsSync E (ENTRY_FILE C)"
    by (simp add: existsSync_def)
  with w p show ?thesis by (simp add: build_def)
qed


lemma concat_sources_block:
  assumes "concat_sources E C order = Inr ls" and "order = xs @ f # ys"
  shows "\<exists>pre post content.
           readFileSync E f = Some content \<and>
           concat_sources E C xs = Inr pre \<and> concat_sources E C ys = Inr post \<and>
           ls = pre @ [js ''// --- SOURCE: '' @ path_relative E (PROJECT_ROOT C) f @ js '' ---'',
                          strip content, []] @ post"
  using assms
  by (auto simp: concat_sources_append split: sum.splits option.splits)

section \<open>What the cleanup removes\<close>

lemma occurs_in_Nil: "occurs_in [] s"
  by (cases s) simp_all

lemma occurs_in_append_right: "occurs_in w ys \<Longrightarrow> occurs_in w (xs @ ys)"
  by (induction xs) simp_all

lemma take_append_le: "n \<le> length xs \<Longrightarrow> take n (xs @ ys) = take n xs"
  by simp

lemma occurs_in_append_left: "occurs_in w xs \<Longrightarrow> occurs_in w (xs @ ys)"
proof (induction xs)
  case Nil
  then show ?case by (simp add: occurs_in_Nil)
next
  case (Cons c cs)
  show ?case
  proof (cases "take (length w) (c # cs) = w")
    case True
    then have "length (take (length w) (c # cs)) = length w" by simp
    then have "length w \<le> length (c # cs)" by (simp add: min_def split: if_splits)
    then have "take (length w) ((c # cs) @ ys) = take (length w) (c # cs)"
      by (rule take_append_le)
    with True have "take (length w) (c # cs @ ys) = w" by simp
    then show ?thesis by simp
  next
    case False
    with Cons show ?thesis by simp
  qed
qed

lemma match_at_Seq_Lit:
  "match_at (Seq (Lit w) x) s = Some m \<Longrightarrow> take (length w) s = w"
  by (simp add: match_at_def mt.simps(2,7) split: if_splits)

lemma mt_Seq_Lit_None:
  "take (length w) s \<noteq> w \<Longrightarrow> mt (R (Seq (Lit w) x) # k) caps s = None"
  by (simp add: mt.simps(2,7))

lemma match_at_Seq_Lit_None:
  "take (length w) s \<noteq> w \<Longrightarrow> match_at (Seq (Lit w) x) s = None"
  by (simp add: match_at_def mt_Seq_Lit_None)

lemma matches_somewhere_occurs:
  "matches_somewhere (Seq (Lit w) x) s \<Longrightarrow> occurs_in w s"
proof (induction s)
  case Nil
  then obtain m where "match_at (Seq (Lit w) x) [] = Some m" by auto
  from match_at_Seq_Lit[OF this] show ?case by simp
next
  case (Cons c cs)
  show ?case
  proof (cases "match_at (Seq (Lit w) x) (c # cs)")
    case None
    with Cons show ?thesis by simp
  next
    case (Some m)
    from match_at_Seq_Lit[OF this] show ?thesis by simp
  qed
qed

lemma no_straddle_import:
  assumes "\<not> occurs_in (js ''import'') b" and "b \<noteq> []"
  shows "take (length (js ''import'')) (b @ js ''import'' @ z) \<noteq> js ''import''"
proof -
  consider c1 where "b = [c1]" | c1 c2 where "b = [c1, c2]" | c1 c2 c3 where "b = [c1, c2, c3]"
    | c1 c2 c3 c4 where "b = [c1, c2, c3, c4]" | c1 c2 c3 c4 c5 where "b = [c1, c2, c3, c4, c5]"
    | c1 c2 c3 c4 c5 c6 cs where "b = c1 # c2 # c3 # c4 # c5 # c6 # cs"
    using assms(2)
    by (metis list.exhaust)
  then show ?thesis
  proof cases
    case 6
    with assms(1) show ?thesis by (auto simp: js_def)
  qed (auto simp: js_def)
qed

lemma no_straddle_from:
  assumes "\<not> occurs_in (js ''from'') b" and "b \<noteq> []"
  shows "take (length (js ''from'')) (b @ js ''from'' @ z) \<noteq> js ''from''"
proof -
  consider c1 where "b = [c1]" | c1 c2 where "b = [c1, c2]" | c1 c2 c3 where "b = [c1, c2, c3]"
    | c1 c2 c3 c4 cs where "b = c1 # c2 # c3 # c4 # cs"
    using assms(2)
    by (metis list.exhaust)
  then show ?thesis
  proof cases
    case 4
    with assms(1) show ?thesis by (auto simp: js_def)
  qed (auto simp: js_def)
qed

lemma mt_LazyStar_skip:
  assumes "mt k caps z = Some m"
    and "\<And>u v. xs = u @ v \<Longrightarrow> v \<noteq> [] \<Longrightarrow> mt k caps (v @ z) = None"
    and "list_all (cmatch c) xs"
  shows "mt (R (LazyStar c) # k) caps (xs @ z) = Some m"
  using assms(2,3)
proof (induction xs)
  case Nil
  from assms(1) show ?case by (subst mt.simps) simp
next
  case (Cons x xs)
  have "mt k caps ((x # xs) @ z) = None"
    by (rule Cons.prems(1)[of "[]"]) simp_all
  moreover have "mt (R (LazyStar c) # k) caps (xs @ z) = Some m"
  proof (rule Cons.IH)
    fix u v
    assume "xs = u @ v" "v \<noteq> []"
    then show "mt k caps (v @ z) = None"
      using Cons.prems(1)[of "x # u" v] by simp
  next
    from Cons.prems(2) show "list_all (cmatch c) xs" by simp
  qed
  moreover from Cons.prems(2) have "cmatch c x" by simp
  ultimately show ?case by (subst mt.simps) simp
qed


lemma from_space: "js ''from '' = js ''from'' @ [32]"
  by (simp add: js_def)

lemma import_space: "js ''import '' = js ''import'' @ [32]"
  by (simp add: js_def)

lemma import_statement_match:
  assumes "\<not> occurs_in (js ''from'') bindings"
    and "list_all (\<lambda>c. c \<noteq> 39 \<and> c \<noteq> 34 \<and> \<not> isLineTerminator c) source"
    and "cmatch CQuote q"
  shows "match_at stripImportFrom (import_statement q bindings source @ rest) = Some ([], rest)"
proof -
  let ?tail = "Seq (Cls CQuote) (Opt (Lit (js '';'')))"
  let ?mid = "Seq (Lit (js ''from''))
                (Seq (Star CSpace) (Seq (Cls CQuote) (Seq (LazyStar CDot) ?tail)))"
  from assms(3) have q: "q = 39 \<or> q = 34" by simp
  have tail: "mt [R ?tail] [] ([q, 59] @ rest) = Some ([], rest)"
    using q by (auto simp: mt.simps js_def)
  have source: "mt [R (LazyStar CDot), R ?tail] [] (source @ [q, 59] @ rest) = Some ([], rest)"
  proof (rule mt_LazyStar_skip[OF tail])
    fix u v
    assume "source = u @ v" "v \<noteq> []"
    with assms(2) obtain c cs where "v = c # cs" "c \<noteq> 39" "c \<noteq> 34"
      by (cases v) auto
    then show "mt [R ?tail] [] (v @ [q, 59] @ rest) = None"
      by (simp add: mt.simps)
  next
    from assms(2) show "list_all (cmatch CDot) source"
      by (induction source) auto
  qed
  have mid: "mt [R ?mid] [] (js ''from '' @ [q] @ source @ [q, 59] @ rest) = Some ([], rest)"
    using source q
    by (auto simp: mt.simps js_def isWhiteSpace_def isLineTerminator_def)
  have bindings: "mt [R (LazyStar CAny), R ?mid] []
      (bindings @ js ''from '' @ [q] @ source @ [q, 59] @ rest) = Some ([], rest)"
  proof (rule mt_LazyStar_skip[OF mid])
    fix u v
    assume uv: "bindings = u @ v" "v \<noteq> []"
    with assms(1) have "\<not> occurs_in (js ''from'') v"
      using occurs_in_append_right by blast
    from no_straddle_from[OF this uv(2)]
    have "take (length (js ''from'')) (v @ js ''from'' @ [32] @ [q] @ source @ [q, 59] @ rest)
        \<noteq> js ''from''" .
    then have "mt [R ?mid] [] (v @ js ''from'' @ [32] @ [q] @ source @ [q, 59] @ rest) = None"
      by (rule mt_Seq_Lit_None)
    then show "mt [R ?mid] [] (v @ js ''from '' @ [q] @ source @ [q, 59] @ rest) = None"
      by (simp only: from_space append_assoc)
  next
    show "list_all (cmatch CAny) bindings"
      by (induction bindings) auto
  qed
  have "mt [R stripImportFrom] []
      (js ''import '' @ bindings @ js ''from '' @ [q] @ source @ [q, 59] @ rest) =
      mt [R (LazyStar CAny), R ?mid] []
        (bindings @ js ''from '' @ [q] @ source @ [q, 59] @ rest)"
    by (simp add: stripImportFrom_def mt.simps(2,3,7) js_def isWhiteSpace_def)
  with bindings show ?thesis
    by (simp add: match_at_def import_statement_def)
qed

lemma replace_all_skip:
  assumes "\<And>u v. b = u @ v \<Longrightarrow> v \<noteq> [] \<Longrightarrow> match_at r (v @ z) = None"
  shows "replace_all r (b @ z) = b @ replace_all r z"
  using assms
proof (induction b)
  case Nil
  then show ?case by simp
next
  case (Cons c cs)
  have "match_at r ((c # cs) @ z) = None"
    by (rule Cons.prems[of "[]"]) simp_all
  moreover have "replace_all r (cs @ z) = cs @ replace_all r z"
  proof (rule Cons.IH)
    fix u v
    assume "cs = u @ v" "v \<noteq> []"
    then show "match_at r (v @ z) = None"
      using Cons.prems[of "c # u" v] by simp
  qed
  ultimately show ?case by (subst replace_all.simps) simp
qed

lemma replace_all_match:
  "match_at r s = Some (caps, rest) \<Longrightarrow> length rest < length s \<Longrightarrow>
     replace_all r s = replace_all r rest"
  by (subst replace_all.simps) simp

lemma stripImportFrom_Seq:
  "\<exists>x. stripImportFrom = Seq (Lit (js ''import'')) x"
  by (simp add: stripImportFrom_def)

lemma stripSideEffect_Seq:
  "\<exists>x. stripSideEffect = Seq (Lit (js ''import'')) x"
  by (simp add: stripSideEffect_def)

lemma stripRequire_Seq:
  "\<exists>x. stripRequire = Seq (Lit (js ''import'')) x"
  by (simp add: stripRequire_def)

lemma module_text_stripImportFrom:
  assumes "list_all plain_import items"
    and "\<not> occurs_in (js ''import'') (kept_text items body)"
  shows "replace_all stripImportFrom (module_text items body) = kept_text items body"
  using assms
proof (induction items)
  case Nil
  obtain x where x: "stripImportFrom = Seq (Lit (js ''import'')) x"
    using stripImportFrom_Seq by blast
  from Nil.prems(2) have "\<not> matches_somewhere stripImportFrom body"
    unfolding x using matches_somewhere_occurs by auto
  then show ?case by (simp add: replace_all_no_match)
next
  case (Cons item items)
  obtain lead q bindings source where item: "item = (lead, q, bindings, source)"
    by (cases item)
  obtain x where x: "stripImportFrom = Seq (Lit (js ''import'')) x"
    using stripImportFrom_Seq by blast
  let ?rest = "module_text items body"
  from Cons.prems(1) item have p: "\<not> occurs_in (js ''from'') bindings"
    "list_all (\<lambda>c. c \<noteq> 39 \<and> c \<noteq> 34 \<and> \<not> isLineTerminator c) source"
    "cmatch CQuote q"
    by (simp_all add: plain_import_def)
  from Cons.prems(2) item have k: "\<not> occurs_in (js ''import'') (lead @ kept_text items body)"
    by simp
  then have kl: "\<not> occurs_in (js ''import'') lead"
    using occurs_in_append_left by blast
  from k have kr: "\<not> occurs_in (js ''import'') (kept_text items body)"
    using occurs_in_append_right by blast
  from Cons.prems(1) have "list_all plain_import items" by simp
  from Cons.IH[OF this kr] have ih: "replace_all stripImportFrom ?rest = kept_text items body" .
  have m: "match_at stripImportFrom (import_statement q bindings source @ ?rest) = Some ([], ?rest)"
    using p by (rule import_statement_match)
  have stmt: "replace_all stripImportFrom (import_statement q bindings source @ ?rest) =
      replace_all stripImportFrom ?rest"
    using m by (rule replace_all_match) (simp add: import_statement_def)
  have "replace_all stripImportFrom (lead @ import_statement q bindings source @ ?rest) =
      lead @ replace_all stripImportFrom (import_statement q bindings source @ ?rest)"
  proof (rule replace_all_skip)
    fix u v
    assume uv: "lead = u @ v" "v \<noteq> []"
    with kl have "\<not> occurs_in (js ''import'') v"
      using occurs_in_append_right by blast
    from no_straddle_import[OF this uv(2)]
    have "take (length (js ''import'')) (v @ js ''import'' @ [32] @ bindings @ js ''from '' @
        [q] @ source @ [q, 59] @ ?rest) \<noteq> js ''import''" .
    then have "match_at stripImportFrom (v @ js ''import'' @ [32] @ bindings @ js ''from '' @
        [q] @ source @ [q, 59] @ ?rest) = None"
      unfolding x by (rule match_at_Seq_Lit_None)
    then show "match_at stripImportFrom (v @ import_statement q bindings source @ ?rest) = None"
      by (simp only: import_statement_def import_space append_assoc)
  qed
  with stmt ih item show ?case by simp
qed


lemma strip_no_match: "\<not> import_like s \<Longrightarrow> strip s = s"
  by (simp add: import_like_def strip_def replace_all_no_match)

lemma import_like_occurs:
  assumes "\<not> occurs_in (js ''import'') s" and "\<not> matches_somewhere stripReexport s"
  shows "\<not> import_like s"
proof -
  obtain x y z where x: "stripImportFrom = Seq (Lit (js ''import'')) x"
    and y: "stripSideEffect = Seq (Lit (js ''import'')) y"
    and z: "stripRequire = Seq (Lit (js ''import'')) z"
    using stripImportFrom_Seq stripSideEffect_Seq stripRequire_Seq by blast
  from assms(1) have "\<not> matches_somewhere stripImportFrom s"
    unfolding x using matches_somewhere_occurs by blast
  moreover from assms(1) have "\<not> matches_somewhere stripSideEffect s"
    unfolding y using matches_somewhere_occurs by blast
  moreover from assms(1) have "\<not> matches_somewhere stripRequire s"
    unfolding z using matches_somewhere_occurs by blast
  ultimately show ?thesis using assms(2) by (simp add: import_like_def)
qed

lemma module_text_strip:
  assumes "list_all plain_import items"
    and "\<not> occurs_in (js ''import'') (kept_text items body)"
    and "\<not> matches_somewhere stripReexport (kept_text items body)"
  shows "strip (module_text items body) = kept_text items body"
proof -
  from assms(2,3) have "\<not> import_like (kept_text items body)"
    by (rule import_like_occurs)
  then have "strip (kept_text items body) = kept_text items body"
    by (rule strip_no_match)
  moreover have "strip (module_text items body) = strip (kept_text items body)"
  proof -
    obtain x where x: "stripImportFrom = Seq (Lit (js ''import'')) x"
      using stripImportFrom_Seq by blast
    from assms(2) have "\<not> matches_somewhere stripImportFrom (kept_text items body)"
      unfolding x using matches_somewhere_occurs by blast
    then have "replace_all stripImportFrom (kept_text items body) = kept_text items body"
      by (rule replace_all_no_match)
    with module_text_stripImportFrom[OF assms(1,2)] show ?thesis
      by (simp add: strip_def)
  qed
  ultimately show ?thesis by simp
qed

lemma replace_all_length: "length (replace_all r s) \<le> length s"
proof (induction s rule: length_induct)
  case (1 s)
  show ?case
  proof (cases "\<exists>caps rest. match_at r s = Some (caps, rest) \<and> length rest < length s")
    case True
    then obtain caps rest where m: "match_at r s = Some (caps, rest)" "length rest < length s"
      by blast
    with 1 have "length (replace_all r rest) \<le> length rest" by blast
    with m show ?thesis by (subst replace_all.simps) simp
  next
    case False
    show ?thesis
    proof (cases s)
      case Nil
      then show ?thesis by (subst replace_all.simps) (simp split: option.splits)
    next
      case (Cons c cs)
      with 1 have "length (replace_all r cs) \<le> length cs" by simp
      with False Cons show ?thesis
        by (subst replace_all.simps) (auto split: option.splits)
    qed
  qed
qed

lemma replace_all_shorter:
  assumes "\<And>s caps rest. match_at r s = Some (caps, rest) \<Longrightarrow> length rest < length s"
    and "matches_somewhere r s"
  shows "length (replace_all r s) < length s"
  using assms(2)
proof (induction s)
  case Nil
  then obtain caps rest where "match_at r [] = Some (caps, rest)" by auto
  with assms(1) show ?case by fastforce
next
  case (Cons c cs)
  show ?case
  proof (cases "match_at r (c # cs)")
    case None
    with Cons have "length (replace_all r cs) < length cs" by simp
    with None show ?thesis by (subst replace_all.simps) simp
  next
    case (Some m)
    obtain caps rest where m: "m = (caps, rest)" by (cases m)
    with Some assms(1) have lt: "length rest < length (c # cs)" by blast
    have "length (replace_all r rest) \<le> length rest" by (rule replace_all_length)
    with Some m lt show ?thesis by (subst replace_all.simps) simp
  qed
qed

lemma strip_progress:
  assumes "r \<in> {stripImportFrom, stripSideEffect, stripRequire, stripReexport}"
    and "match_at r s = Some (caps, rest)"
  shows "length rest < length s"
proof -
  have L: "js ''import'' = 105 # js ''mport''" "js ''export'' = 101 # js ''xport''"
    by (simp_all add: js_def)
  from assms show ?thesis
    unfolding match_at_def
    by (auto simp: stripImportFrom_def stripSideEffect_def stripRequire_def stripReexport_def L
        dest: mt_Seq_Lit_progress)
qed

lemma strip_shorter:
  assumes "import_like s"
  shows "length (strip s) < length s"
proof -
  let ?s1 = "replace_all stripImportFrom s"
  let ?s2 = "replace_all stripSideEffect ?s1"
  let ?s3 = "replace_all stripRequire ?s2"
  let ?s4 = "replace_all stripReexport ?s3"
  have le: "length ?s1 \<le> length s" "length ?s2 \<le> length ?s1" "length ?s3 \<le> length ?s2"
    "length ?s4 \<le> length ?s3"
    by (rule replace_all_length)+
  have lt: "length (replace_all r t) < length t"
    if "r \<in> {stripImportFrom, stripSideEffect, stripRequire, stripReexport}"
      "matches_somewhere r t" for r t
    using that(2) by (intro replace_all_shorter strip_progress[OF that(1)])
  have "length ?s4 < length s"
  proof (cases "matches_somewhere stripImportFrom s")
    case True
    then have "length ?s1 < length s" by (intro lt) simp_all
    with le show ?thesis by linarith
  next
    case n1: False
    then have e1: "?s1 = s" by (rule replace_all_no_match)
    show ?thesis
    proof (cases "matches_somewhere stripSideEffect s")
      case True
      then have "length (replace_all stripSideEffect s) < length s" by (intro lt) simp_all
      with le e1 show ?thesis by simp
    next
      case n2: False
      then have e2: "replace_all stripSideEffect s = s" by (rule replace_all_no_match)
      show ?thesis
      proof (cases "matches_somewhere stripRequire s")
        case True
        then have "length (replace_all stripRequire s) < length s" by (intro lt) simp_all
        with le e1 e2 show ?thesis by simp
      next
        case n3: False
        then have e3: "replace_all stripRequire s = s" by (rule replace_all_no_match)
        from assms n1 n2 n3 have "matches_somewhere stripReexport s"
          by (simp add: import_like_def)
        then have "length (replace_all stripReexport s) < length s" by (intro lt) simp_all
        with e1 e2 e3 show ?thesis by simp
      qed
    qed
  qed
  then show ?thesis by (simp add: strip_def)
qed

section \<open>Evaluating the example\<close>

lemmas regex_eval = mt.simps replace_all.simps exec_all.simps match_at_def js_def
  isLineTerminator_def isWhiteSpace_def plus_def importPath_of_def List.map_filter_def

lemma specs_a: "import_specifiers src_a = Some [js ''mod'', js ''./b'', js ''./c'', js ''./t'', js ''./missing'']"
  by (simp add: import_specifiers_def importRegex_def src_a_def regex_eval)

lemma specs_b: "import_specifiers src_b = Some [js ''./d'', js ''./a'']"
  by (simp add: import_specifiers_def importRegex_def src_b_def regex_eval)

lemma specs_c: "import_specifiers src_c = Some [js ''./d'']"
  by (simp add: import_specifiers_def importRegex_def src_c_def regex_eval)

lemma specs_d: "import_specifiers src_d = Some []"
  by (simp add: import_specifiers_def importRegex_def src_d_def regex_eval)

lemma strip_a: "strip src_a = js ''\<newline>\<newline>\<newline>\<newline>\<newline>mod.run(b + c);''"
  by (simp add: strip_def stripImportFrom_def stripSideEffect_def stripRequire_def stripReexport_def src_a_def regex_eval)


lemmas env_eval = readFileSync_def readdirSync_def existsSync_def isFile_def writeFileSync_def
  resolveImport_def targetPath_of_def extensions_def EXTERNAL_MODULES_def startsWith_def endsWith_def
  posix_resolve_def posix_segments_def posix_dirname_def posix_join_def posix_normalize_def
  posix_relative_def init_wstate_def

lemma walk_E0: "walk E0 C0 (js ''/p/src/a.ts'') init_wstate = Inr st0"
  by (simp add: walk.simps walk_imports.simps E0_def posix_env_def C0_def st0_def env_eval
      specs_a specs_b specs_c specs_d js_def insert_commute)

lemmas strip_eval = strip_def stripImportFrom_def stripSideEffect_def stripRequire_def
  stripReexport_def

lemmas build_eval = build_def processStrings_def assign_def add_own_def array_index_def
  digits_value_def hasOwnProperty_def empty_object_def banner_def decimal.simps quote_def
  escape_unit_def unicode_escape_def hex_digit_def

lemmas example_eval = posix_env_def C0_def C_main_def C8_def env_eval build_eval js_def

lemma strip_b: "strip src_b = js ''\<newline>\<newline>export const b = d;''"
  by (simp add: strip_eval src_b_def regex_eval)

lemma strip_c: "strip src_c = js ''\<newline>export const c = d;''"
  by (simp add: strip_eval src_c_def regex_eval)

lemma strip_d: "strip src_d = js ''export const d = 1;''"
  by (simp add: strip_eval src_d_def regex_eval)

lemma build_E0:
  "build E0 C0 =
     \<lparr>failure = None,
      written =
        [(js ''/p/dist/bundle.strings.json'', js ''{\<newline>    \"x\": 1\<newline>}''),
         (js ''/p/dist/bundle.ts'',
          js ''// --- BUNDLED TYPESCRIPT OUTPUT ---\<newline>// @ts-nocheck\<newline>\<newline>// --- SOURCE: src/d.ts ---\<newline>export const d = 1;\<newline>\<newline>// --- SOURCE: src/b.ts ---\<newline>\<newline>\<newline>export const b = d;\<newline>\<newline>// --- SOURCE: src/c.ts ---\<newline>\<newline>export const c = d;\<newline>\<newline>// --- SOURCE: src/a.ts ---\<newline>\<newline>\<newline>\<newline>\<newline>\<newline>mod.run(b + c);\<newline>'')],
      walked = st0\<rparr>"
proof -
  have w: "walk E0 C0 (ENTRY_FILE C0) init_wstate = Inr st0"
    using walk_E0 by (simp add: C0_def)
  show ?thesis
    unfolding build_def w
    by (simp add: st0_def E0_def example_eval strip_a strip_b strip_c strip_d)
qed

lemma deps_E0:
  "dependencies E0 C0 (js ''/p/src/a.ts'') = [js ''/p/src/b.ts'', js ''/p/src/c.ts'']"
  "dependencies E0 C0 (js ''/p/src/b.ts'') = [js ''/p/src/d.ts'', js ''/p/src/a.ts'']"
  "dependencies E0 C0 (js ''/p/src/c.ts'') = [js ''/p/src/d.ts'']"
  "dependencies E0 C0 (js ''/p/src/d.ts'') = []"
  by (simp_all add: dependencies_def resolved_imports_def List.map_filter_def E0_def example_eval
      specs_a specs_b specs_c specs_d)

lemma build_E2:
  "build E2 C_main =
     \<lparr>failure = None,
      written =
        [(js ''/p/dist/bundle.strings.json'', js ''{}''),
         (js ''/p/dist/bundle.ts'',
          js ''// --- BUNDLED TYPESCRIPT OUTPUT ---\<newline>// @ts-nocheck\<newline>\<newline>// --- SOURCE: src/main.ts ---\<newline>\<newline>run(m);\<newline>'')],
      walked =
        \<lparr>visited = {js ''/p/src/main.ts''}, buildOrder = [js ''/p/src/main.ts''],
         trace = [ReadFile (js ''/p/src/main.ts''),
                  Stat (js ''/p/src/missing''), Stat (js ''/p/src/missing.ts''),
                  Stat (js ''/p/src/missing/index.ts''), Stat (js ''/p/src/missing.d.ts''),
                  Warn (js ''./missing'') (js ''/p/src'')]\<rparr>\<rparr>"
  by (simp add: E2_def example_eval walk.simps walk_imports.simps import_specifiers_def
      importRegex_def strip_eval regex_eval)

lemma build_E8:
  "build E8 C8 =
     \<lparr>failure = None,
      written =
        [(js ''/p/dist/bundle.strings.json'', js ''{}''),
         (js ''/p/dist/bundle.ts'',
          js ''// --- BUNDLED TYPESCRIPT OUTPUT ---\<newline>// @ts-nocheck\<newline>\<newline>// --- SOURCE: util.ts ---\<newline>\<newline>export const u = 1;\<newline>\<newline>// --- SOURCE: types.d.ts ---\<newline>\<newline>export type T = number;\<newline>'')],
      walked =
        \<lparr>visited = {js ''/p/types.d.ts'', js ''/p/util.ts''},
         buildOrder = [js ''/p/util.ts'', js ''/p/types.d.ts''],
         trace = [ReadFile (js ''/p/types.d.ts''),
                  Stat (js ''/p/util''), Stat (js ''/p/util.ts''),
                  ReadFile (js ''/p/util.ts''),
                  Stat (js ''/p/types''), Stat (js ''/p/types.ts''),
                  Stat (js ''/p/types/index.ts''), Stat (js ''/p/types.d.ts'')]\<rparr>\<rparr>"
  by (simp add: E8_def example_eval walk.simps walk_imports.simps import_specifiers_def
      importRegex_def strip_eval regex_eval insert_commute)

lemma walk_main_only:
  "walk (posix_env cwd ((js ''/p/src/main.ts'', js ''run();'') # fs) ds ps) C_main
        (js ''/p/src/main.ts'') init_wstate =
     Inr \<lparr>visited = {js ''/p/src/main.ts''}, buildOrder = [js ''/p/src/main.ts''],
          trace = [ReadFile (js ''/p/src/main.ts'')]\<rparr>"
  by (simp add: example_eval walk.simps walk_imports.simps import_specifiers_def
      importRegex_def regex_eval)



lemma build_E5:
  "build E5 C_main =
     \<lparr>failure = None,
      written =
        [(js ''/p/dist/bundle.strings.json'', js ''{\<newline>    \"k\": 1\<newline>}''),
         (js ''/p/dist/bundle.ts'',
          js ''// --- BUNDLED TYPESCRIPT OUTPUT ---\<newline>// @ts-nocheck\<newline>\<newline>// --- SOURCE: src/main.ts ---\<newline>run();\<newline>'')],
      walked = \<lparr>visited = {js ''/p/src/main.ts''}, buildOrder = [js ''/p/src/main.ts''],
                trace = [ReadFile (js ''/p/src/main.ts'')]\<rparr>\<rparr>"
proof -
  have w: "walk E5 C_main (ENTRY_FILE C_main) init_wstate =
     Inr \<lparr>visited = {js ''/p/src/main.ts''}, buildOrder = [js ''/p/src/main.ts''],
          trace = [ReadFile (js ''/p/src/main.ts'')]\<rparr>"
    using walk_main_only by (simp add: E5_def C_main_def)
  show ?thesis
    unfolding build_def w
    by (simp add: E5_def example_eval strip_eval regex_eval)
qed


text \<open>
  The scan of \<open>walk\<close> does not find every import statement. Its first alternative tries
  \<^verbatim>\<open>[\s\S]*?from\s+\<close> before the empty alternative, so a side-effect import that is
  followed anywhere later in the file by \<^verbatim>\<open>from\<close> and a quoted path is matched together
  with everything up to that path, and only the later specifier is captured. The import
  edges below are the ones the scan finds.
\<close>

lemma side_effect_import_overlooked:
  "import_specifiers (js ''import './p';\<newline>import {x} from './x';'') = Some [js ''./x'']"
  by (simp add: import_specifiers_def importRegex_def regex_eval)

section \<open>Properties of the build order\<close>

text \<open>
  C4. Each file path appears at most once in \<^verbatim>\<open>buildOrder\<close>, whatever the import graph
  (cycles and diamonds included): the walk from a readable entry file returns, and the
  order it returns has no duplicates.
\<close>

theorem buildOrder_distinct:
  "(isFile E entry \<longrightarrow> (\<exists>st. walk E C entry init_wstate = Inr st)) \<and>
   (\<forall>st. walk E C entry init_wstate = Inr st \<longrightarrow> distinct (buildOrder st))"
  using walk_succeeds[of E entry init_wstate C] walk_from_init(1)[of E C entry]
  by (auto simp: walk_inv_def)

theorem buildOrder_distinct_witness:
  "isFile E0 (js ''/p/src/a.ts'') \<and>
   (\<exists>st. walk E0 C0 (js ''/p/src/a.ts'') init_wstate = Inr st \<and>
      buildOrder st = [js ''/p/src/d.ts'', js ''/p/src/b.ts'', js ''/p/src/c.ts'', js ''/p/src/a.ts''] \<and>
      distinct (buildOrder st))"
proof -
  have f: "isFile E0 (js ''/p/src/a.ts'')"
    by (simp add: isFile_def E0_def posix_env_def js_def)
  obtain st where st: "walk E0 C0 (js ''/p/src/a.ts'') init_wstate = Inr st"
    "buildOrder st = [js ''/p/src/d.ts'', js ''/p/src/b.ts'', js ''/p/src/c.ts'', js ''/p/src/a.ts'']"
    using walk_E0 by (simp add: st0_def)
  with buildOrder_distinct[of E0 "js ''/p/src/a.ts''" C0] have "distinct (buildOrder st)"
    by blast
  with f st show ?thesis by blast
qed



text \<open>
  C3. The claim as stated, for every edge of every graph, fails on a cycle: in the example
  \<^verbatim>\<open>b.ts\<close> imports \<^verbatim>\<open>a.ts\<close>, which resolves to a file that is no declaration file, and
  \<^verbatim>\<open>a.ts\<close> stands after \<^verbatim>\<open>b.ts\<close> in \<^verbatim>\<open>buildOrder\<close>.
\<close>

theorem dependency_before_importer_counterexample:
  "walk E0 C0 (js ''/p/src/a.ts'') init_wstate = Inr st0 \<and>
   (js ''/p/src/b.ts'', js ''/p/src/a.ts'') \<in> edge E0 C0 \<and>
   \<not> endsWith (js ''/p/src/a.ts'') (js ''.d.ts'') \<and>
   index_of (buildOrder st0) (js ''/p/src/a.ts'') = 3 \<and>
   index_of (buildOrder st0) (js ''/p/src/b.ts'') = 1"
proof -
  have "(js ''/p/src/b.ts'', js ''/p/src/a.ts'') \<in> edge E0 C0"
    by (simp add: edge_def deps_E0)
  moreover have "\<not> endsWith (js ''/p/src/a.ts'') (js ''.d.ts'')"
    by (simp add: endsWith_def js_def)
  moreover have "index_of (buildOrder st0) (js ''/p/src/a.ts'') = 3"
    "index_of (buildOrder st0) (js ''/p/src/b.ts'') = 1"
    by (simp_all add: st0_def index_of_def js_def)
  ultimately show ?thesis using walk_E0 by blast
qed

text \<open>
  C3, amended. For every edge (importer, dependency) whose importer is in
  \<^verbatim>\<open>buildOrder\<close> and that lies on no cycle (the importer cannot be reached from the
  dependency along import edges), the dependency is in \<^verbatim>\<open>buildOrder\<close> at a strictly
  smaller index than the importer.
\<close>

theorem dependency_before_importer:
  assumes "walk E C entry init_wstate = Inr st"
    and "importer \<in> set (buildOrder st)"
    and "(importer, dependency) \<in> edge E C"
    and "(dependency, importer) \<notin> (edge E C)\<^sup>*"
  shows "dependency \<in> set (buildOrder st) \<and>
         index_of (buildOrder st) dependency < index_of (buildOrder st) importer"
proof -
  from walk_from_init(1)[OF assms(1)] assms(2,3)
  have "before (buildOrder st) dependency importer \<or> (dependency, importer) \<in> (edge E C)\<^sup>*"
    by (auto simp: walk_inv_def edge_def)
  with assms(4) show ?thesis by (simp add: before_def)
qed

theorem dependency_before_importer_witness:
  "walk E0 C0 (js ''/p/src/a.ts'') init_wstate = Inr st0 \<and>
   js ''/p/src/b.ts'' \<in> set (buildOrder st0) \<and>
   (js ''/p/src/b.ts'', js ''/p/src/d.ts'') \<in> edge E0 C0 \<and>
   (js ''/p/src/d.ts'', js ''/p/src/b.ts'') \<notin> (edge E0 C0)\<^sup>* \<and>
   index_of (buildOrder st0) (js ''/p/src/d.ts'') < index_of (buildOrder st0) (js ''/p/src/b.ts'')"
proof -
  have m: "js ''/p/src/b.ts'' \<in> set (buildOrder st0)" by (simp add: st0_def)
  have e: "(js ''/p/src/b.ts'', js ''/p/src/d.ts'') \<in> edge E0 C0"
    by (simp add: edge_def deps_E0)
  have n: "(js ''/p/src/d.ts'', js ''/p/src/b.ts'') \<notin> (edge E0 C0)\<^sup>*"
  proof
    assume "(js ''/p/src/d.ts'', js ''/p/src/b.ts'') \<in> (edge E0 C0)\<^sup>*"
    then have "js ''/p/src/b.ts'' = js ''/p/src/d.ts''"
      by (rule no_dependencies_reach) (simp add: deps_E0)
    then show False by (simp add: js_def)
  qed
  from dependency_before_importer[OF walk_E0 m e n] walk_E0 m e n show ?thesis by simp
qed

text \<open>
  C8. The claim as stated fails when the declaration file is the entry file: the entry is
  appended whatever its name. In the example the entry is \<^verbatim>\<open>types.d.ts\<close>; the import
  \<^verbatim>\<open>./types\<close> of \<^verbatim>\<open>util.ts\<close> resolves to it, the walker does not recurse, and
  \<^verbatim>\<open>types.d.ts\<close> is in \<^verbatim>\<open>buildOrder\<close> all the same.
\<close>

theorem declaration_file_counterexample:
  "resolveImport E8 C8 (js ''./types'') (path_dirname E8 (js ''/p/util.ts'')) =
     (Some (js ''/p/types.d.ts''),
      [Stat (js ''/p/types''), Stat (js ''/p/types.ts''), Stat (js ''/p/types/index.ts''),
       Stat (js ''/p/types.d.ts'')]) \<and>
   endsWith (js ''/p/types.d.ts'') (js ''.d.ts'') \<and>
   failure (build E8 C8) = None \<and>
   buildOrder (walked (build E8 C8)) = [js ''/p/util.ts'', js ''/p/types.d.ts'']"
  by (simp add: build_E8) (simp add: E8_def example_eval)

text \<open>
  C8, amended. An import that resolves to a declaration file (a path ending in
  \<^verbatim>\<open>.d.ts\<close>) makes the walker go on with the next import without recursing, and a
  declaration file is in \<^verbatim>\<open>buildOrder\<close> only if it is the entry file itself.
\<close>

theorem declaration_files_not_walked:
  "(walk E C entry init_wstate = Inr st \<longrightarrow>
      (\<forall>p \<in> set (buildOrder st). endsWith p (js ''.d.ts'') \<longrightarrow> p = entry)) \<and>
   (resolveImport E C importPath (path_dirname E filePath) = (Some a, evs) \<and>
      endsWith a (js ''.d.ts'') \<longrightarrow>
      walk_imports E C filePath (importPath # rest) s =
        walk_imports E C filePath rest (s\<lparr>trace := trace s @ evs\<rparr>))"
proof -
  have "p = entry" if "walk E C entry init_wstate = Inr st" "p \<in> set (buildOrder st)"
    "endsWith p (js ''.d.ts'')" for p
    using walk_new_elements[OF that(1,2)] that(3) by (auto simp: init_wstate_def)
  then show ?thesis by (auto simp: walk_imports.simps)
qed

theorem declaration_files_not_walked_witness:
  "walk E0 C0 (js ''/p/src/a.ts'') init_wstate = Inr st0 \<and>
   resolveImport E0 C0 (js ''./t'') (path_dirname E0 (js ''/p/src/a.ts'')) =
     (Some (js ''/p/src/t.d.ts''),
      [Stat (js ''/p/src/t''), Stat (js ''/p/src/t.ts''), Stat (js ''/p/src/t/index.ts''),
       Stat (js ''/p/src/t.d.ts'')]) \<and>
   endsWith (js ''/p/src/t.d.ts'') (js ''.d.ts'') \<and>
   js ''/p/src/t.d.ts'' \<notin> set (buildOrder st0) \<and>
   walk_imports E0 C0 (js ''/p/src/a.ts'') [js ''./t''] init_wstate =
     Inr (init_wstate\<lparr>trace :=
       [Stat (js ''/p/src/t''), Stat (js ''/p/src/t.ts''), Stat (js ''/p/src/t/index.ts''),
        Stat (js ''/p/src/t.d.ts'')]\<rparr>)"
proof -
  let ?evs = "[Stat (js ''/p/src/t''), Stat (js ''/p/src/t.ts''), Stat (js ''/p/src/t/index.ts''),
       Stat (js ''/p/src/t.d.ts'')]"
  have r: "resolveImport E0 C0 (js ''./t'') (path_dirname E0 (js ''/p/src/a.ts'')) =
     (Some (js ''/p/src/t.d.ts''), ?evs)"
    by (simp add: E0_def example_eval)
  have d: "endsWith (js ''/p/src/t.d.ts'') (js ''.d.ts'')"
    by (simp add: endsWith_def js_def)
  have ne: "js ''/p/src/t.d.ts'' \<noteq> js ''/p/src/a.ts''" by (simp add: js_def)
  note T = declaration_files_not_walked[of E0 C0 "js ''/p/src/a.ts''" st0 "js ''./t''"
      "js ''/p/src/a.ts''" "js ''/p/src/t.d.ts''" ?evs "[]" init_wstate]
  from T walk_E0 d ne have "js ''/p/src/t.d.ts'' \<notin> set (buildOrder st0)" by blast
  moreover from T r d have "walk_imports E0 C0 (js ''/p/src/a.ts'') [js ''./t''] init_wstate =
      walk_imports E0 C0 (js ''/p/src/a.ts'') [] (init_wstate\<lparr>trace := trace init_wstate @ ?evs\<rparr>)"
    by blast
  ultimately show ?thesis using walk_E0 r d
    by (simp add: walk_imports.simps init_wstate_def)
qed

section \<open>Resolving an import\<close>

text \<open>
  C7. For a specifier that is not ignored, the base path is the importing directory joined
  with the specifier when the specifier begins with a dot, and
  \<^verbatim>\<open>PROJECT_ROOT/node_modules/specifier\<close> otherwise. The candidates are the base path
  itself, then the base path plus \<^verbatim>\<open>.ts\<close>, plus \<^verbatim>\<open>/index.ts\<close>, plus \<^verbatim>\<open>.d.ts\<close>; they are
  probed in that order up to the first that is a file, which is the result.
\<close>

theorem resolution_order:
  assumes "importPath \<notin> set EXTERNAL_MODULES"
    and "base = (if startsWith importPath (js ''.'')
                 then path_resolve E [currentFileDir, importPath]
                 else path_resolve E [PROJECT_ROOT C, js ''node_modules'', importPath])"
    and "candidates = [base, base @ js ''.ts'', base @ js ''/index.ts'', base @ js ''.d.ts'']"
  shows "fst (resolveImport E C importPath currentFileDir) = List.find (isFile E) candidates \<and>
         snd (resolveImport E C importPath currentFileDir) =
           map Stat (takeWhile (\<lambda>p. \<not> isFile E p) candidates @
                     take 1 (dropWhile (\<lambda>p. \<not> isFile E p) candidates)) @
           (if List.find (isFile E) candidates = None then [Warn importPath currentFileDir]
            else [])"
  using assms
  by (simp add: resolveImport_def targetPath_of_def extensions_def Let_def)

theorem resolution_order_witness:
  "js ''./t'' \<notin> set EXTERNAL_MODULES \<and>
   startsWith (js ''./t'') (js ''.'') \<and>
   path_resolve E0 [js ''/p/src'', js ''./t''] = js ''/p/src/t'' \<and>
   List.find (isFile E0)
     [js ''/p/src/t'', js ''/p/src/t.ts'', js ''/p/src/t/index.ts'', js ''/p/src/t.d.ts''] =
     Some (js ''/p/src/t.d.ts'') \<and>
   resolveImport E0 C0 (js ''./t'') (js ''/p/src'') =
     (Some (js ''/p/src/t.d.ts''),
      [Stat (js ''/p/src/t''), Stat (js ''/p/src/t.ts''), Stat (js ''/p/src/t/index.ts''),
       Stat (js ''/p/src/t.d.ts'')])"
proof -
  let ?cands = "[js ''/p/src/t'', js ''/p/src/t.ts'', js ''/p/src/t/index.ts'', js ''/p/src/t.d.ts'']"
  have a: "js ''./t'' \<notin> set EXTERNAL_MODULES"
    by (simp add: EXTERNAL_MODULES_def js_def)
  have s: "startsWith (js ''./t'') (js ''.'')"
    by (simp add: startsWith_def js_def)
  have b: "path_resolve E0 [js ''/p/src'', js ''./t''] = js ''/p/src/t''"
    by (simp add: E0_def example_eval)
  have c: "?cands = [js ''/p/src/t'', js ''/p/src/t'' @ js ''.ts'',
      js ''/p/src/t'' @ js ''/index.ts'', js ''/p/src/t'' @ js ''.d.ts'']"
    by (simp add: js_def)
  have f: "List.find (isFile E0) ?cands = Some (js ''/p/src/t.d.ts'')"
    by (simp add: E0_def example_eval)
  have p: "takeWhile (\<lambda>p. \<not> isFile E0 p) ?cands @ take 1 (dropWhile (\<lambda>p. \<not> isFile E0 p) ?cands)
      = ?cands"
    by (simp add: E0_def example_eval)
  from resolution_order[OF a _ c, of E0 "js ''/p/src''" C0] s b
  have "fst (resolveImport E0 C0 (js ''./t'') (js ''/p/src'')) = List.find (isFile E0) ?cands"
    "snd (resolveImport E0 C0 (js ''./t'') (js ''/p/src'')) =
       map Stat (takeWhile (\<lambda>p. \<not> isFile E0 p) ?cands @
                 take 1 (dropWhile (\<lambda>p. \<not> isFile E0 p) ?cands)) @
       (if List.find (isFile E0) ?cands = None then [Warn (js ''./t'') (js ''/p/src'')] else [])"
    by simp_all
  then have "resolveImport E0 C0 (js ''./t'') (js ''/p/src'') =
     (Some (js ''/p/src/t.d.ts''), map Stat ?cands)"
    unfolding f p by (simp add: prod_eq_iff)
  with a s b f show ?thesis by simp
qed

text \<open>
  C2. The last part of the claim fails: the statement of an unresolved import does not
  remain in the bundle. In the example \<^verbatim>\<open>./missing\<close> resolves to no file, the build runs
  to the end, and the text \<^verbatim>\<open>import {m} from './missing';\<close> of \<^verbatim>\<open>main.ts\<close> is not in
  the bundle.
\<close>

theorem unresolved_import_counterexample:
  "fst (resolveImport E2 C_main (js ''./missing'') (js ''/p/src'')) = None \<and>
   readFileSync E2 (js ''/p/src/main.ts'') =
     Some (js ''import {m} from './missing';\<newline>run(m);'') \<and>
   failure (build E2 C_main) = None \<and>
   written (build E2 C_main) =
     [(js ''/p/dist/bundle.strings.json'', js ''{}''),
      (js ''/p/dist/bundle.ts'',
       js ''// --- BUNDLED TYPESCRIPT OUTPUT ---\<newline>// @ts-nocheck\<newline>\<newline>// --- SOURCE: src/main.ts ---\<newline>\<newline>run(m);\<newline>'')] \<and>
   \<not> occurs_in (js ''import {m} from './missing';'')
     (js ''// --- BUNDLED TYPESCRIPT OUTPUT ---\<newline>// @ts-nocheck\<newline>\<newline>// --- SOURCE: src/main.ts ---\<newline>\<newline>run(m);\<newline>'')"
  by (simp add: build_E2) (simp add: E2_def example_eval)

text \<open>
  C2, amended. Take a file of the bundle and a specifier the scan of \<open>walk\<close> finds in
  its text, that is not ignored and none of whose four candidates is a file. Then
  \<open>resolveImport\<close> returns \<^verbatim>\<open>null\<close> after probing the four candidates and prints one
  warning that names the specifier and the directory of the importing file, and these
  events are in the trace of the build; the walker does not recurse and goes on with the
  next import; the build still succeeds, failing only when the merge of the resource
  documents fails; and the block of the file in the bundle is its text after the four
  cleanup replacements, whatever the resolver answered: the statement remains only where
  no cleanup expression matches it.
\<close>

theorem unresolved_import_warns:
  assumes "isFile E (ENTRY_FILE C)"
    and "filePath \<in> set (buildOrder (walked (build E C)))"
    and "readFileSync E filePath = Some content"
    and "import_specifiers content = Some specs"
    and "importPath \<in> set specs"
    and "importPath \<notin> set EXTERNAL_MODULES"
    and "base = targetPath_of E C importPath (path_dirname E filePath)"
    and "\<not> isFile E base" and "\<not> isFile E (base @ js ''.ts'')"
    and "\<not> isFile E (base @ js ''/index.ts'')" and "\<not> isFile E (base @ js ''.d.ts'')"
  shows "resolveImport E C importPath (path_dirname E filePath) =
           (None, [Stat base, Stat (base @ js ''.ts''), Stat (base @ js ''/index.ts''),
                   Stat (base @ js ''.d.ts''), Warn importPath (path_dirname E filePath)]) \<and>
         (\<exists>pre post. trace (walked (build E C)) =
            pre @ [Stat base, Stat (base @ js ''.ts''), Stat (base @ js ''/index.ts''),
                   Stat (base @ js ''.d.ts''), Warn importPath (path_dirname E filePath)] @ post) \<and>
         (\<forall>rest st. walk_imports E C filePath (importPath # rest) st =
            walk_imports E C filePath rest
              (st\<lparr>trace := trace st @
                 [Stat base, Stat (base @ js ''.ts''), Stat (base @ js ''/index.ts''),
                  Stat (base @ js ''.d.ts''), Warn importPath (path_dirname E filePath)]\<rparr>)) \<and>
         failure (build E C) =
           (case processStrings E C (buildOrder (walked (build E C))) of
              Inl e \<Rightarrow> Some e | Inr finalStrings \<Rightarrow> None) \<and>
         (\<forall>finalStrings.
            processStrings E C (buildOrder (walked (build E C))) = Inr finalStrings \<longrightarrow>
            (\<exists>pre post source.
               written (build E C) =
                 [(OUTPUT_STRINGS_FILE C, json_stringify E (own finalStrings)),
                  (OUTPUT_FILE C,
                   join_lines (banner @ pre @
                     [js ''// --- SOURCE: '' @ path_relative E (PROJECT_ROOT C) filePath @
                        js '' ---'',
                      strip source, []] @ post))] \<and>
               readFileSync
                 (writeFileSync E (OUTPUT_STRINGS_FILE C) (json_stringify E (own finalStrings)))
                 filePath = Some source))"
proof -
  let ?st = "walked (build E C)"
  let ?evs = "[Stat base, Stat (base @ js ''.ts''), Stat (base @ js ''/index.ts''),
               Stat (base @ js ''.d.ts''), Warn importPath (path_dirname E filePath)]"
  from assms(6-11) have r: "resolveImport E C importPath (path_dirname E filePath) = (None, ?evs)"
    by (simp add: resolveImport_def extensions_def Let_def)
  from assms(1) have w: "walk E C (ENTRY_FILE C) init_wstate = Inr ?st"
    by (rule build_walked)
  from walk_logs_imports[OF w assms(2-5)] r
  have t: "\<exists>pre post. trace ?st = pre @ ?evs @ post" by simp
  from r have s: "walk_imports E C filePath (importPath # rest) st =
      walk_imports E C filePath rest (st\<lparr>trace := trace st @ ?evs\<rparr>)" for rest st
    by (simp add: walk_imports.simps)
  have f: "failure (build E C) =
      (case processStrings E C (buildOrder ?st) of Inl e \<Rightarrow> Some e | Inr finalStrings \<Rightarrow> None)"
  proof (cases "processStrings E C (buildOrder ?st)")
    case (Inl e)
    from build_strings_failure[OF w Inl] Inl show ?thesis by simp
  next
    case (Inr m)
    from build_written[OF w Inr] have "failure (build E C) = None" by blast
    with Inr show ?thesis by simp
  qed
  have b: "\<exists>pre post source.
      written (build E C) =
        [(OUTPUT_STRINGS_FILE C, json_stringify E (own m)),
         (OUTPUT_FILE C,
          join_lines (banner @ pre @
            [js ''// --- SOURCE: '' @ path_relative E (PROJECT_ROOT C) filePath @ js '' ---'',
             strip source, []] @ post))] \<and>
      readFileSync (writeFileSync E (OUTPUT_STRINGS_FILE C) (json_stringify E (own m)))
        filePath = Some source"
    if m: "processStrings E C (buildOrder ?st) = Inr m" for m
  proof -
    let ?E = "writeFileSync E (OUTPUT_STRINGS_FILE C) (json_stringify E (own m))"
    from build_written[OF w m] obtain ls where
      ls: "concat_sources ?E C (buildOrder ?st) = Inr ls" and
      wr: "written (build E C) =
            [(OUTPUT_STRINGS_FILE C, json_stringify E (own m)),
             (OUTPUT_FILE C, join_lines (banner @ ls))]"
      by blast
    from assms(2) obtain xs ys where "buildOrder ?st = xs @ filePath # ys"
      by (auto simp: in_set_conv_decomp)
    from concat_sources_block[OF ls this] obtain pre post source where
      rd: "readFileSync ?E filePath = Some source" and
      l: "ls = pre @ [js ''// --- SOURCE: '' @ path_relative ?E (PROJECT_ROOT C) filePath @
                       js '' ---'', strip source, []] @ post"
      by auto
    have "path_relative ?E = path_relative E" by (simp add: writeFileSync_def)
    with wr rd l show ?thesis by auto
  qed
  from r t s f b show ?thesis by blast
qed

theorem unresolved_import_warns_witness:
  "isFile E2 (ENTRY_FILE C_main) \<and>
   js ''/p/src/main.ts'' \<in> set (buildOrder (walked (build E2 C_main))) \<and>
   readFileSync E2 (js ''/p/src/main.ts'') =
     Some (js ''import {m} from './missing';\<newline>run(m);'') \<and>
   import_specifiers (js ''import {m} from './missing';\<newline>run(m);'') = Some [js ''./missing''] \<and>
   js ''./missing'' \<notin> set EXTERNAL_MODULES \<and>
   targetPath_of E2 C_main (js ''./missing'') (path_dirname E2 (js ''/p/src/main.ts'')) =
     js ''/p/src/missing'' \<and>
   \<not> isFile E2 (js ''/p/src/missing'') \<and> \<not> isFile E2 (js ''/p/src/missing.ts'') \<and>
   \<not> isFile E2 (js ''/p/src/missing/index.ts'') \<and> \<not> isFile E2 (js ''/p/src/missing.d.ts'') \<and>
   resolveImport E2 C_main (js ''./missing'') (js ''/p/src'') =
     (None, [Stat (js ''/p/src/missing''), Stat (js ''/p/src/missing.ts''),
             Stat (js ''/p/src/missing/index.ts''), Stat (js ''/p/src/missing.d.ts''),
             Warn (js ''./missing'') (js ''/p/src'')]) \<and>
   (\<exists>pre post. trace (walked (build E2 C_main)) =
      pre @ [Stat (js ''/p/src/missing''), Stat (js ''/p/src/missing.ts''),
             Stat (js ''/p/src/missing/index.ts''), Stat (js ''/p/src/missing.d.ts''),
             Warn (js ''./missing'') (js ''/p/src'')] @ post) \<and>
   failure (build E2 C_main) = None \<and>
   (\<exists>strings pre post.
      written (build E2 C_main) =
        [(js ''/p/dist/bundle.strings.json'', strings),
         (js ''/p/dist/bundle.ts'',
          join_lines (banner @ pre @
            [js ''// --- SOURCE: src/main.ts ---'',
             strip (js ''import {m} from './missing';\<newline>run(m);''), []] @ post))])"
proof -
  let ?content = "js ''import {m} from './missing';\<newline>run(m);''"
  let ?evs = "[Stat (js ''/p/src/missing''), Stat (js ''/p/src/missing.ts''),
             Stat (js ''/p/src/missing/index.ts''), Stat (js ''/p/src/missing.d.ts''),
             Warn (js ''./missing'') (js ''/p/src'')]"
  have i: "isFile E2 (ENTRY_FILE C_main)"
    by (simp add: E2_def example_eval)
  have o: "js ''/p/src/main.ts'' \<in> set (buildOrder (walked (build E2 C_main)))"
    by (simp add: build_E2)
  have c: "readFileSync E2 (js ''/p/src/main.ts'') = Some ?content"
    by (simp add: E2_def example_eval)
  have sp: "import_specifiers ?content = Some [js ''./missing'']"
    by (simp add: import_specifiers_def importRegex_def regex_eval)
  have m: "js ''./missing'' \<in> set [js ''./missing'']" by simp
  have a: "js ''./missing'' \<notin> set EXTERNAL_MODULES"
    by (simp add: EXTERNAL_MODULES_def js_def)
  have d: "path_dirname E2 (js ''/p/src/main.ts'') = js ''/p/src''"
    by (simp add: E2_def example_eval)
  have b: "js ''/p/src/missing'' =
      targetPath_of E2 C_main (js ''./missing'') (path_dirname E2 (js ''/p/src/main.ts''))"
    by (simp add: E2_def example_eval)
  have n: "\<not> isFile E2 (js ''/p/src/missing'')" "\<not> isFile E2 (js ''/p/src/missing'' @ js ''.ts'')"
    "\<not> isFile E2 (js ''/p/src/missing'' @ js ''/index.ts'')"
    "\<not> isFile E2 (js ''/p/src/missing'' @ js ''.d.ts'')"
    by (simp_all add: E2_def example_eval)
  have e: "js ''/p/src/missing'' @ js ''.ts'' = js ''/p/src/missing.ts''"
    "js ''/p/src/missing'' @ js ''/index.ts'' = js ''/p/src/missing/index.ts''"
    "js ''/p/src/missing'' @ js ''.d.ts'' = js ''/p/src/missing.d.ts''"
    by (simp_all add: js_def)
  note u = unresolved_import_warns[OF i o c sp m a b n, unfolded d e]
  from u have r: "resolveImport E2 C_main (js ''./missing'') (js ''/p/src'') = (None, ?evs)"
    by blast
  from u have t: "\<exists>pre post. trace (walked (build E2 C_main)) = pre @ ?evs @ post"
    by blast
  have f: "failure (build E2 C_main) = None" by (simp add: build_E2)
  with u obtain finalStrings where
    p: "processStrings E2 C_main (buildOrder (walked (build E2 C_main))) = Inr finalStrings"
    by (cases "processStrings E2 C_main (buildOrder (walked (build E2 C_main)))") auto
  with u obtain pre post source where
    wr: "written (build E2 C_main) =
      [(OUTPUT_STRINGS_FILE C_main, json_stringify E2 (own finalStrings)),
       (OUTPUT_FILE C_main,
        join_lines (banner @ pre @
          [js ''// --- SOURCE: '' @ path_relative E2 (PROJECT_ROOT C_main) (js ''/p/src/main.ts'') @
             js '' ---'',
           strip source, []] @ post))]" and
    rd: "readFileSync
      (writeFileSync E2 (OUTPUT_STRINGS_FILE C_main) (json_stringify E2 (own finalStrings)))
      (js ''/p/src/main.ts'') = Some source"
    by blast
  have "readFileSync
      (writeFileSync E2 (OUTPUT_STRINGS_FILE C_main) (json_stringify E2 (own finalStrings)))
      (js ''/p/src/main.ts'') = Some ?content"
    by (simp add: E2_def posix_env_def C_main_def readFileSync_def writeFileSync_def js_def)
  with rd have tx: "source = ?content" by simp
  have an: "js ''// --- SOURCE: '' @ path_relative E2 (PROJECT_ROOT C_main) (js ''/p/src/main.ts'') @
      js '' ---'' = js ''// --- SOURCE: src/main.ts ---''"
    by (simp add: E2_def example_eval)
  have op: "OUTPUT_STRINGS_FILE C_main = js ''/p/dist/bundle.strings.json''"
    "OUTPUT_FILE C_main = js ''/p/dist/bundle.ts''"
    by (simp_all add: C_main_def)
  from wr have b': "\<exists>strings pre post.
      written (build E2 C_main) =
        [(js ''/p/dist/bundle.strings.json'', strings),
         (js ''/p/dist/bundle.ts'',
          join_lines (banner @ pre @
            [js ''// --- SOURCE: src/main.ts ---'', strip ?content, []] @ post))]"
    unfolding tx an op by blast
  from i o c sp a b[symmetric] n[unfolded e] r t f b' show ?thesis by blast
qed

section \<open>Fatal conditions\<close>



section \<open>Ignored modules\<close>

text \<open>
  C1. For the ignored module \<^verbatim>\<open>mod\<close> the resolver touches no file and returns \<^verbatim>\<open>null\<close>
  without a warning, and \<^verbatim>\<open>mod\<close> adds nothing to \<^verbatim>\<open>buildOrder\<close>; but the statement that
  imports it is not left in the bundle. In the example the entry \<^verbatim>\<open>a.ts\<close> begins with
  \<^verbatim>\<open>import * as mod from 'mod';\<close>, the build runs to the end, and that text is not in the
  bundle.
\<close>

theorem ignored_import_is_stripped:
  "resolveImport E0 C0 (js ''mod'') (path_dirname E0 (ENTRY_FILE C0)) = (None, []) \<and>
   readFileSync E0 (ENTRY_FILE C0) = Some src_a \<and>
   startsWith src_a (js ''import * as mod from 'mod';'') \<and>
   failure (build E0 C0) = None \<and>
   buildOrder (walked (build E0 C0)) =
     [js ''/p/src/d.ts'', js ''/p/src/b.ts'', js ''/p/src/c.ts'', js ''/p/src/a.ts''] \<and>
   written (build E0 C0) =
     [(js ''/p/dist/bundle.strings.json'', js ''{\<newline>    \"x\": 1\<newline>}''),
      (js ''/p/dist/bundle.ts'',
       js ''// --- BUNDLED TYPESCRIPT OUTPUT ---\<newline>// @ts-nocheck\<newline>\<newline>// --- SOURCE: src/d.ts ---\<newline>export const d = 1;\<newline>\<newline>// --- SOURCE: src/b.ts ---\<newline>\<newline>\<newline>export const b = d;\<newline>\<newline>// --- SOURCE: src/c.ts ---\<newline>\<newline>export const c = d;\<newline>\<newline>// --- SOURCE: src/a.ts ---\<newline>\<newline>\<newline>\<newline>\<newline>\<newline>mod.run(b + c);\<newline>'')] \<and>
   \<not> occurs_in (js ''import * as mod from 'mod';'')
     (js ''// --- BUNDLED TYPESCRIPT OUTPUT ---\<newline>// @ts-nocheck\<newline>\<newline>// --- SOURCE: src/d.ts ---\<newline>export const d = 1;\<newline>\<newline>// --- SOURCE: src/b.ts ---\<newline>\<newline>\<newline>export const b = d;\<newline>\<newline>// --- SOURCE: src/c.ts ---\<newline>\<newline>export const c = d;\<newline>\<newline>// --- SOURCE: src/a.ts ---\<newline>\<newline>\<newline>\<newline>\<newline>\<newline>mod.run(b + c);\<newline>'')"
proof -
  have "resolveImport E0 C0 (js ''mod'') (path_dirname E0 (ENTRY_FILE C0)) = (None, [])"
    by (simp add: resolveImport_ignored EXTERNAL_MODULES_def)
  moreover have "readFileSync E0 (ENTRY_FILE C0) = Some src_a"
    by (simp add: E0_def example_eval)
  moreover have "startsWith src_a (js ''import * as mod from 'mod';'')"
    by (simp add: startsWith_def src_a_def js_def)
  moreover have "\<not> occurs_in (js ''import * as mod from 'mod';'')
     (js ''// --- BUNDLED TYPESCRIPT OUTPUT ---\<newline>// @ts-nocheck\<newline>\<newline>// --- SOURCE: src/d.ts ---\<newline>export const d = 1;\<newline>\<newline>// --- SOURCE: src/b.ts ---\<newline>\<newline>\<newline>export const b = d;\<newline>\<newline>// --- SOURCE: src/c.ts ---\<newline>\<newline>export const c = d;\<newline>\<newline>// --- SOURCE: src/a.ts ---\<newline>\<newline>\<newline>\<newline>\<newline>\<newline>mod.run(b + c);\<newline>'')"
    by (simp add: js_def)
  ultimately show ?thesis by (simp add: build_E0 st0_def)
qed

section \<open>Merging the resource documents\<close>

text \<open>
  C5. Two documents in one directory both define the top-level key \<^verbatim>\<open>__proto__\<close> (the
  first also the key \<^verbatim>\<open>k\<close>). The build does not abort: the assignment
  \<^verbatim>\<open>mergedStrings['__proto__'] = ...\<close> creates no own property, so the second document
  finds no conflict, and the merged document that is written has the key \<^verbatim>\<open>k\<close> only.
\<close>

theorem proto_key_not_merged:
  "readFileSync E5 (js ''/p/src/a.strings.json'') = Some (js ''{\"__proto__\":\"one\",\"k\":1}'') \<and>
   json_parse E5 (js ''{\"__proto__\":\"one\",\"k\":1}'') =
     Some (JObj [(js ''__proto__'', JStr (js ''one'')), (js ''k'', JNum 1)]) \<and>
   readFileSync E5 (js ''/p/src/b.strings.json'') = Some (js ''{\"__proto__\":\"two\"}'') \<and>
   json_parse E5 (js ''{\"__proto__\":\"two\"}'') =
     Some (JObj [(js ''__proto__'', JStr (js ''two''))]) \<and>
   processStrings E5 C_main [js ''/p/src/main.ts''] =
     Inr \<lparr>own = [(js ''k'', JNum 1)], proto = ObjectPrototype\<rparr> \<and>
   failure (build E5 C_main) = None \<and>
   written (build E5 C_main) =
     [(js ''/p/dist/bundle.strings.json'', js ''{\<newline>    \"k\": 1\<newline>}''),
      (js ''/p/dist/bundle.ts'',
       js ''// --- BUNDLED TYPESCRIPT OUTPUT ---\<newline>// @ts-nocheck\<newline>\<newline>// --- SOURCE: src/main.ts ---\<newline>run();\<newline>'')]"
  by (simp add: build_E5) (simp add: E5_def example_eval)

section \<open>Stripping twice\<close>

text \<open>
  C9. Stripping is not idempotent. Removing the side-effect import \<^verbatim>\<open>import 'x';\<close> from
  the text below joins \<^verbatim>\<open>imp\<close> and \<^verbatim>\<open>ort 'y';\<close> into a new import statement, which a second
  application removes.
\<close>

theorem strip_not_idempotent:
  "strip (js ''impimport 'x';ort 'y';'') = js ''import 'y';'' \<and>
   strip (strip (js ''impimport 'x';ort 'y';'')) = [] \<and>
   strip (strip (js ''impimport 'x';ort 'y';'')) \<noteq> strip (js ''impimport 'x';ort 'y';'')"
proof -
  have 1: "strip (js ''impimport 'x';ort 'y';'') = js ''import 'y';''"
    by (simp add: strip_eval regex_eval)
  have 2: "strip (js ''import 'y';'') = []"
    by (simp add: strip_eval regex_eval)
  show ?thesis unfolding 1 2 by (simp add: js_def)
qed

text \<open>
  C9, amended. Stripping a stripped text again changes nothing exactly when the stripped
  text holds no import-like text, that is, no match of one of the four cleanup
  expressions; when it holds some, the second application removes it and the text gets
  shorter. One application leaves no import-like text on a module of the usual shape:
  plain statements \<^verbatim>\<open>import <bindings> from '<source>';\<close> with text around them that
  holds no \<^verbatim>\<open>import\<close> and no match of the re-export expression. There \<open>strip\<close>
  removes exactly the statements, and a second application changes nothing.
\<close>

theorem strip_idempotent_iff:
  "(strip (strip t) = strip t \<longleftrightarrow> \<not> import_like (strip t)) \<and>
   (import_like (strip t) \<longrightarrow> length (strip (strip t)) < length (strip t)) \<and>
   (list_all plain_import items \<and>
    \<not> occurs_in (js ''import'') (kept_text items body) \<and>
    \<not> matches_somewhere stripReexport (kept_text items body) \<longrightarrow>
      strip (module_text items body) = kept_text items body \<and>
      \<not> import_like (strip (module_text items body)) \<and>
      strip (strip (module_text items body)) = strip (module_text items body))"
proof -
  have a: "strip (strip t) = strip t \<longleftrightarrow> \<not> import_like (strip t)"
    using strip_shorter[of "strip t"] strip_no_match[of "strip t"] by auto
  have b: "import_like (strip t) \<longrightarrow> length (strip (strip t)) < length (strip t)"
    using strip_shorter by blast
  have c: "strip (module_text items body) = kept_text items body \<and>
      \<not> import_like (strip (module_text items body)) \<and>
      strip (strip (module_text items body)) = strip (module_text items body)"
    if h: "list_all plain_import items" "\<not> occurs_in (js ''import'') (kept_text items body)"
      "\<not> matches_somewhere stripReexport (kept_text items body)"
  proof -
    from h have s: "strip (module_text items body) = kept_text items body"
      by (rule module_text_strip)
    from h(2,3) have n: "\<not> import_like (kept_text items body)" by (rule import_like_occurs)
    from s n strip_no_match[OF n] show ?thesis by simp
  qed
  from a b c show ?thesis by blast
qed

theorem strip_idempotent_iff_witness:
  "import_like (strip (js ''impimport 'x';ort 'y';'')) \<and>
   length (strip (strip (js ''impimport 'x';ort 'y';'')))
     < length (strip (js ''impimport 'x';ort 'y';'')) \<and>
   strip (strip (js ''impimport 'x';ort 'y';'')) \<noteq> strip (js ''impimport 'x';ort 'y';'') \<and>
   list_all plain_import [([], 39, js ''{d} '', js ''./d'')] \<and>
   module_text [([], 39, js ''{d} '', js ''./d'')] (js ''\<newline>export const c = d;'') = src_c \<and>
   kept_text [([], 39, js ''{d} '', js ''./d'')] (js ''\<newline>export const c = d;'') =
     js ''\<newline>export const c = d;'' \<and>
   \<not> occurs_in (js ''import'') (js ''\<newline>export const c = d;'') \<and>
   \<not> matches_somewhere stripReexport (js ''\<newline>export const c = d;'') \<and>
   strip src_c = js ''\<newline>export const c = d;'' \<and>
   \<not> import_like (strip src_c) \<and>
   strip (strip src_c) = strip src_c"
proof -
  let ?t = "js ''impimport 'x';ort 'y';''"
  let ?items = "[([], 39, js ''{d} '', js ''./d'')]"
  let ?body = "js ''\<newline>export const c = d;''"
  have s1: "strip ?t = js ''import 'y';''"
    by (simp add: strip_eval regex_eval)
  have l: "import_like (strip ?t)"
    unfolding s1 by (simp add: import_like_def strip_eval regex_eval)
  have p: "list_all plain_import ?items"
    by (simp add: plain_import_def js_def isLineTerminator_def)
  have m: "module_text ?items ?body = src_c"
    by (simp add: import_statement_def src_c_def js_def)
  have k: "kept_text ?items ?body = ?body" by simp
  have o: "\<not> occurs_in (js ''import'') ?body"
    by (simp add: js_def)
  have x: "\<not> matches_somewhere stripReexport ?body"
    by (simp add: strip_eval regex_eval)
  note u = strip_idempotent_iff[of ?t ?items ?body, unfolded m k]
  from u l have "length (strip (strip ?t)) < length (strip ?t)"
    "strip (strip ?t) \<noteq> strip ?t"
    by blast+
  moreover from u p o x have "strip src_c = ?body" "\<not> import_like (strip src_c)"
    "strip (strip src_c) = strip src_c"
    by blast+
  ultimately show ?thesis using l p m k o x by blast
qed

end
